theory Spec2Isabelle
  imports Complex_Main
begin

section \<open>Data model of \<open>KeyboardListenerAPI.ts\<close>\<close>

text \<open>
  The class \<open>KeyboardListenerAPI\<close> keeps a set of normal listeners, a FIFO queue of
  high-priority handlers with two cross-index maps, and the set of held keys. Listeners
  and handlers are closures; a closure is modelled by the values it captures together
  with a reference number standing for the identity of the function object, because the
  source compares functions by identity (\<open>Set.delete\<close>, \<open>Map.get\<close>, \<open>indexOf\<close>).

  JavaScript numbers are modelled as exact rationals plus \<open>NaN\<close> (which the source
  produces from an absent \<open>audio_context_start_time\<close>); floating-point rounding is not
  modelled. Strings are byte strings and \<open>toLowerCase\<close> folds the ASCII letters only.
\<close>

datatype ValidResponses = Keys "string list" | ALL_KEYS | NO_KEYS

datatype Priority = PriorityNormal | PriorityHigh

datatype number = Num rat | NaN

datatype js_error = TypeError | UserError

datatype 'a completion = Return 'a | Throw js_error

text \<open>
  \<open>callback_function\<close> is user code. It receives \<open>{ key, rt }\<close> and may call back into
  the API (register, cancel, cancel all) or throw; it is modelled as a function from the
  response to the list of API calls it performs, in order. A call that passes a handle
  names the handle by its reference number.
\<close>

datatype callback = Callback "string \<Rightarrow> number \<Rightarrow> cmd list"
and cmd =
    CallGetKeyboardResponse GetKeyboardResponseOptions
  | CallCancelKeyboardResponse nat
  | CallCancelAllKeyboardResponses
  | ThrowError
and GetKeyboardResponseOptions = Options
    (opt_callback_function: callback)
    (opt_valid_responses: "ValidResponses option")
    (opt_rt_method: "string option")
    (opt_persist: "bool option")
    (opt_audio_context: "nat option")
    (opt_audio_context_start_time: "rat option")
    (opt_allow_held_key: "bool option")
    (opt_minimum_valid_rt: "rat option")
    (opt_priority: "Priority option")

text \<open>The variables a listener or handler closure of \<open>getKeyboardResponse\<close> captures.\<close>

record closure =
  callback_function :: callback
  valid_responses :: ValidResponses
  rt_method :: string
  persist :: "bool option"
  audio_context :: "nat option"
  startTime :: number
  allow_held_key :: bool
  minimum_valid_rt :: rat

datatype fn = Fn (fn_ref: nat) (fn_env: closure)

text \<open>What a call leaves outside the object: console output, \<open>e.preventDefault()\<close>,
  the invocation of a listener or handler by the root listener, and the invocation of a
  \<open>callback_function\<close> (tagged with the reference of the closure that called it).\<close>

datatype effect =
    ConsoleLog
  | ConsoleError
  | PreventDefault
  | ListenerInvoked nat
  | HandlerInvoked nat
  | CallbackInvoked nat string number

record KeyboardListenerAPI =
  areResponsesCaseSensitive :: bool
  minimumValidRt :: rat
  listeners :: "fn list"
  heldKeys :: "string set"
  areRootListenersRegistered :: bool
  highPriorityQueue :: "fn list"
  highPriorityTokenToHandler :: "nat \<rightharpoonup> fn"
  highPriorityHandlerToToken :: "nat \<rightharpoonup> nat"
  next_ref :: nat
  trace :: "effect list"

text \<open>The surroundings a call reads: \<open>performance.now()\<close> (milliseconds), the
  \<open>currentTime\<close> of each audio context (seconds), and whether \<open>getRootElement()\<close>
  returns an element. One synchronous call reads one instant.\<close>

record environment =
  performance_now :: rat
  audio_currentTime :: "nat \<Rightarrow> rat"
  rootElement :: bool

datatype KeyboardEvent = KeyboardEvent (e_key: string)

datatype jsval = JString string | JNull | JUndefined | JNumber rat | JBoolean bool

section \<open>Numbers and strings\<close>

definition toLowerCaseChar :: "char \<Rightarrow> char" where
  "toLowerCaseChar c =
     (let n = (of_char c :: nat) in if 65 \<le> n \<and> n \<le> 90 then char_of (n + 32) else c)"

definition toLowerCase :: "string \<Rightarrow> string" where
  "toLowerCase str = map toLowerCaseChar str"

definition Math_round :: "number \<Rightarrow> number" where
  "Math_round x = (case x of NaN \<Rightarrow> NaN | Num r \<Rightarrow> Num (of_int \<lfloor>r + 1 / 2\<rfloor>))"

definition num_minus :: "number \<Rightarrow> number \<Rightarrow> number" where
  "num_minus x y = (case (x, y) of (Num a, Num b) \<Rightarrow> Num (a - b) | _ \<Rightarrow> NaN)"

definition num_less :: "number \<Rightarrow> number \<Rightarrow> bool" where
  "num_less x y = (case (x, y) of (Num a, Num b) \<Rightarrow> a < b | _ \<Rightarrow> False)"

definition emit :: "effect \<Rightarrow> KeyboardListenerAPI \<Rightarrow> KeyboardListenerAPI" where
  "emit x s = s\<lparr>trace := trace s @ [x]\<rparr>"

section \<open>Operations\<close>

text \<open>\<open>registerRootListeners\<close> (lines 47-56).\<close>

definition registerRootListeners :: "environment \<Rightarrow> KeyboardListenerAPI \<Rightarrow> KeyboardListenerAPI" where
  "registerRootListeners env s =
     (if \<not> areRootListenersRegistered s
      then (if rootElement env then s\<lparr>areRootListenersRegistered := True\<rparr> else s)
      else s)"

text \<open>The constructor (lines 24-31), with its default parameters.\<close>

definition new_KeyboardListenerAPI ::
  "environment \<Rightarrow> bool option \<Rightarrow> rat option \<Rightarrow> KeyboardListenerAPI" where
  "new_KeyboardListenerAPI env caseSensitive minRt =
     registerRootListeners env
       \<lparr> areResponsesCaseSensitive = (case caseSensitive of None \<Rightarrow> False | Some b \<Rightarrow> b),
         minimumValidRt = (case minRt of None \<Rightarrow> 0 | Some r \<Rightarrow> r),
         listeners = [],
         heldKeys = {},
         areRootListenersRegistered = False,
         highPriorityQueue = [],
         highPriorityTokenToHandler = Map.empty,
         highPriorityHandlerToToken = Map.empty,
         next_ref = 0,
         trace = [] \<rparr>"

text \<open>\<open>toLowerCaseIfInsensitive\<close> (lines 81-83).\<close>

definition toLowerCaseIfInsensitive :: "KeyboardListenerAPI \<Rightarrow> string \<Rightarrow> string" where
  "toLowerCaseIfInsensitive s str =
     (if areResponsesCaseSensitive s then str else toLowerCase str)"

text \<open>\<open>rootKeyupListener\<close> (lines 85-87).\<close>

definition rootKeyupListener :: "KeyboardEvent \<Rightarrow> KeyboardListenerAPI \<Rightarrow> KeyboardListenerAPI" where
  "rootKeyupListener e s = s\<lparr>heldKeys := heldKeys s - {toLowerCaseIfInsensitive s (e_key e)}\<rparr>"

text \<open>\<open>isResponseValid\<close> (lines 89-103).\<close>

definition isResponseValid ::
  "KeyboardListenerAPI \<Rightarrow> ValidResponses \<Rightarrow> bool \<Rightarrow> string \<Rightarrow> bool" where
  "isResponseValid s validResponses allowHeldKey k =
     (if \<not> allowHeldKey \<and> k \<in> heldKeys s then False
      else (case validResponses of
              ALL_KEYS \<Rightarrow> True
            | NO_KEYS \<Rightarrow> False
            | Keys ks \<Rightarrow> k \<in> set ks))"

text \<open>The function-identity operations of the containers: \<open>Set.has\<close> and \<open>Set.delete\<close>
  on the listener set (kept in insertion order), \<open>Set.add\<close>, and
  \<open>indexOf\<close> followed by \<open>splice(index, 1)\<close> on the queue.\<close>

definition has_ref :: "nat \<Rightarrow> fn list \<Rightarrow> bool" where
  "has_ref r fs = (r \<in> fn_ref ` set fs)"

definition delete_ref :: "nat \<Rightarrow> fn list \<Rightarrow> fn list" where
  "delete_ref r fs = filter (\<lambda>f. fn_ref f \<noteq> r) fs"

definition add_fn :: "fn \<Rightarrow> fn list \<Rightarrow> fn list" where
  "add_fn f fs = (if has_ref (fn_ref f) fs then fs else fs @ [f])"

fun splice_ref :: "nat \<Rightarrow> fn list \<Rightarrow> fn list" where
  "splice_ref r [] = []"
| "splice_ref r (f # fs) = (if fn_ref f = r then fs else f # splice_ref r fs)"

text \<open>\<open>cancelKeyboardResponse\<close> (lines 189-204).\<close>

definition cancelKeyboardResponse :: "nat \<Rightarrow> KeyboardListenerAPI \<Rightarrow> KeyboardListenerAPI" where
  "cancelKeyboardResponse listener s =
     (if has_ref listener (listeners s)
      then s\<lparr>listeners := delete_ref listener (listeners s)\<rparr>
      else (case highPriorityTokenToHandler s listener of
              None \<Rightarrow> s
            | Some handler \<Rightarrow>
                s\<lparr>highPriorityQueue := splice_ref (fn_ref handler) (highPriorityQueue s),
                  highPriorityTokenToHandler := (highPriorityTokenToHandler s)(listener := None),
                  highPriorityHandlerToToken :=
                    (highPriorityHandlerToToken s)(fn_ref handler := None)\<rparr>))"

text \<open>\<open>cancelAllKeyboardResponses\<close> (lines 206-212).\<close>

definition cancelAllKeyboardResponses :: "KeyboardListenerAPI \<Rightarrow> KeyboardListenerAPI" where
  "cancelAllKeyboardResponses s =
     s\<lparr>listeners := [],
       highPriorityQueue := [],
       highPriorityTokenToHandler := Map.empty,
       highPriorityHandlerToToken := Map.empty\<rparr>"

text \<open>\<open>getKeyboardResponse\<close> (lines 105-187): the registration itself. The closures it
  creates are \<open>handler_call\<close> and \<open>listener_call\<close> below, applied to the captured
  variables. The handler takes the next free reference and its token the one after.\<close>

definition getKeyboardResponse ::
  "environment \<Rightarrow> GetKeyboardResponseOptions \<Rightarrow> KeyboardListenerAPI \<Rightarrow> nat \<times> KeyboardListenerAPI" where
  "getKeyboardResponse env opts s0 =
     (let valid_responses0 = (case opt_valid_responses opts of None \<Rightarrow> ALL_KEYS | Some v \<Rightarrow> v);
          rt_method0 = (case opt_rt_method opts of None \<Rightarrow> ''performance'' | Some m \<Rightarrow> m);
          allow_held_key0 = (case opt_allow_held_key opts of None \<Rightarrow> False | Some b \<Rightarrow> b);
          minimum_valid_rt0 =
            (case opt_minimum_valid_rt opts of None \<Rightarrow> minimumValidRt s0 | Some r \<Rightarrow> r);
          priority0 = (case opt_priority opts of None \<Rightarrow> PriorityNormal | Some p \<Rightarrow> p);
          invalid = (rt_method0 \<noteq> ''performance'' \<and> rt_method0 \<noteq> ''audio'');
          s1 = (if invalid then emit ConsoleLog s0 else s0);
          rt_method1 = (if invalid then ''performance'' else rt_method0);
          usePerformanceRt = (rt_method1 = ''performance'');
          startTime0 =
            (if usePerformanceRt then Num (performance_now env)
             else (case opt_audio_context_start_time opts of
                     None \<Rightarrow> NaN
                   | Some t \<Rightarrow> Num (t * 1000)));
          s2 = registerRootListeners env s1;
          valid_responses1 =
            (if \<not> areResponsesCaseSensitive s2
             then (case valid_responses0 of
                     Keys ks \<Rightarrow> Keys (map toLowerCase ks)
                   | v \<Rightarrow> v)
             else valid_responses0);
          captured =
            \<lparr> callback_function = opt_callback_function opts,
              valid_responses = valid_responses1,
              rt_method = rt_method1,
              persist = opt_persist opts,
              audio_context = opt_audio_context opts,
              startTime = startTime0,
              allow_held_key = allow_held_key0,
              minimum_valid_rt = minimum_valid_rt0 \<rparr>
      in if priority0 = PriorityHigh
         then (let handler = Fn (next_ref s2) captured;
                   token = next_ref s2 + 1
               in (token,
                   s2\<lparr>highPriorityQueue := highPriorityQueue s2 @ [handler],
                      highPriorityTokenToHandler := (highPriorityTokenToHandler s2)(token \<mapsto> handler),
                      highPriorityHandlerToToken :=
                        (highPriorityHandlerToToken s2)(fn_ref handler \<mapsto> token),
                      next_ref := next_ref s2 + 2\<rparr>))
         else (let listener = Fn (next_ref s2) captured
               in (fn_ref listener,
                   s2\<lparr>listeners := add_fn listener (listeners s2),
                      next_ref := next_ref s2 + 1\<rparr>)))"

text \<open>Running the body of a \<open>callback_function\<close>: its API calls in order, stopping at
  the first exception with the state reached so far.\<close>

fun run_cmd :: "environment \<Rightarrow> cmd \<Rightarrow> KeyboardListenerAPI \<Rightarrow> unit completion \<times> KeyboardListenerAPI" where
  "run_cmd env (CallGetKeyboardResponse opts) s = (Return (), snd (getKeyboardResponse env opts s))"
| "run_cmd env (CallCancelKeyboardResponse h) s = (Return (), cancelKeyboardResponse h s)"
| "run_cmd env CallCancelAllKeyboardResponses s = (Return (), cancelAllKeyboardResponses s)"
| "run_cmd env ThrowError s = (Throw UserError, s)"

fun run_cmds :: "environment \<Rightarrow> cmd list \<Rightarrow> KeyboardListenerAPI \<Rightarrow> unit completion \<times> KeyboardListenerAPI" where
  "run_cmds env [] s = (Return (), s)"
| "run_cmds env (c # cs) s =
     (case run_cmd env c s of
        (Throw err, s') \<Rightarrow> (Throw err, s')
      | (Return u, s') \<Rightarrow> run_cmds env cs s')"

text \<open>The call \<open>callback_function({ key: e.key, rt })\<close> made by the closure \<open>owner\<close>.\<close>

definition invoke_callback ::
  "environment \<Rightarrow> nat \<Rightarrow> callback \<Rightarrow> string \<Rightarrow> number \<Rightarrow> KeyboardListenerAPI
     \<Rightarrow> unit completion \<times> KeyboardListenerAPI" where
  "invoke_callback env owner cb k rt s =
     (case cb of Callback body \<Rightarrow> run_cmds env (body k rt) (emit (CallbackInvoked owner k rt) s))"

text \<open>The reaction time both closures compute first (lines 135-138 and 161-164). Reading
  \<open>currentTime\<close> of an absent audio context is a \<open>TypeError\<close>.\<close>

definition compute_rt :: "environment \<Rightarrow> closure \<Rightarrow> number completion" where
  "compute_rt env c =
     (if rt_method c = ''performance''
      then Return (Math_round (num_minus (Num (performance_now env)) (startTime c)))
      else (case audio_context c of
              None \<Rightarrow> Throw TypeError
            | Some a \<Rightarrow>
                Return (Math_round (num_minus (Num (audio_currentTime env a * 1000)) (startTime c)))))"

text \<open>The high-priority handler closure (lines 134-149).\<close>

definition handler_call ::
  "environment \<Rightarrow> KeyboardEvent \<Rightarrow> fn \<Rightarrow> KeyboardListenerAPI \<Rightarrow> bool completion \<times> KeyboardListenerAPI" where
  "handler_call env e h s =
     (let c = fn_env h in
      case compute_rt env c of
        Throw err \<Rightarrow> (Throw err, s)
      | Return rt \<Rightarrow>
          if num_less rt (Num (minimum_valid_rt c)) then (Return False, s)
          else (let k = toLowerCaseIfInsensitive s (e_key e) in
                if isResponseValid s (valid_responses c) (allow_held_key c) k
                then (case invoke_callback env (fn_ref h) (callback_function c) (e_key e) rt
                             (emit PreventDefault s) of
                        (Throw err, s') \<Rightarrow> (Throw err, s')
                      | (Return u, s') \<Rightarrow> (Return True, s'))
                else (Return False, s)))"

text \<open>The normal listener closure (lines 160-183).\<close>

definition listener_call ::
  "environment \<Rightarrow> KeyboardEvent \<Rightarrow> fn \<Rightarrow> KeyboardListenerAPI \<Rightarrow> unit completion \<times> KeyboardListenerAPI" where
  "listener_call env e l s =
     (let c = fn_env l in
      case compute_rt env c of
        Throw err \<Rightarrow> (Throw err, s)
      | Return rt \<Rightarrow>
          if num_less rt (Num (minimum_valid_rt c)) then (Return (), s)
          else (let k = toLowerCaseIfInsensitive s (e_key e) in
                if isResponseValid s (valid_responses c) (allow_held_key c) k
                then (let s1 = emit PreventDefault s;
                          s2 = (if persist c \<noteq> Some True
                                then cancelKeyboardResponse (fn_ref l) s1 else s1)
                      in invoke_callback env (fn_ref l) (callback_function c) (e_key e) rt s2)
                else (Return (), s)))"

text \<open>The loop of \<open>rootKeydownListener\<close> over the static copy of the listener set
  (lines 74-76).\<close>

fun call_listeners ::
  "environment \<Rightarrow> KeyboardEvent \<Rightarrow> fn list \<Rightarrow> KeyboardListenerAPI \<Rightarrow> unit completion \<times> KeyboardListenerAPI" where
  "call_listeners env e [] s = (Return (), s)"
| "call_listeners env e (l # ls) s =
     (case listener_call env e l (emit (ListenerInvoked (fn_ref l)) s) of
        (Throw err, s') \<Rightarrow> (Throw err, s')
      | (Return u, s') \<Rightarrow> call_listeners env e ls s')"

text \<open>\<open>rootKeydownListener\<close> (lines 58-79). Lines 64-69 are \<open>shift_handled\<close>:
  \<open>shift()\<close> drops the first entry of the queue as it is after the handler returned
  (and does nothing on an empty queue), then the handler's token is looked up and both
  map entries are deleted. Line 78 is \<open>add_held\<close>. An exception leaves the function
  before the key is added to the held keys.\<close>

definition shift_handled :: "fn \<Rightarrow> KeyboardListenerAPI \<Rightarrow> KeyboardListenerAPI" where
  "shift_handled handler s1 =
     (let s2 = s1\<lparr>highPriorityQueue := tl (highPriorityQueue s1)\<rparr> in
      case highPriorityHandlerToToken s2 (fn_ref handler) of
        None \<Rightarrow> s2
      | Some token \<Rightarrow>
          s2\<lparr>highPriorityTokenToHandler := (highPriorityTokenToHandler s2)(token := None),
             highPriorityHandlerToToken :=
               (highPriorityHandlerToToken s2)(fn_ref handler := None)\<rparr>)"

definition add_held :: "KeyboardEvent \<Rightarrow> KeyboardListenerAPI \<Rightarrow> KeyboardListenerAPI" where
  "add_held e s = s\<lparr>heldKeys := insert (toLowerCaseIfInsensitive s (e_key e)) (heldKeys s)\<rparr>"

definition rootKeydownListener ::
  "environment \<Rightarrow> KeyboardEvent \<Rightarrow> KeyboardListenerAPI \<Rightarrow> unit completion \<times> KeyboardListenerAPI" where
  "rootKeydownListener env e s =
     (case (case highPriorityQueue s of
              handler # rest \<Rightarrow>
                (case handler_call env e handler (emit (HandlerInvoked (fn_ref handler)) s) of
                   (Throw err, s1) \<Rightarrow> (Throw err, s1)
                 | (Return handled, s1) \<Rightarrow>
                     (Return (), if handled then shift_handled handler s1 else s1))
            | [] \<Rightarrow> call_listeners env e (listeners s) s) of
        (Throw err, s3) \<Rightarrow> (Throw err, s3)
      | (Return u, s3) \<Rightarrow> (Return (), add_held e s3))"

text \<open>\<open>compareKeys\<close> (lines 214-233), on arbitrary JavaScript values; the result
  \<open>None\<close> is \<open>undefined\<close>.\<close>

definition is_string :: "jsval \<Rightarrow> bool" where
  "is_string v = (case v of JString x \<Rightarrow> True | _ \<Rightarrow> False)"

definition compareKeys ::
  "jsval \<Rightarrow> jsval \<Rightarrow> KeyboardListenerAPI \<Rightarrow> bool option \<times> KeyboardListenerAPI" where
  "compareKeys key1 key2 s =
     (if (\<not> is_string key1 \<and> key1 \<noteq> JNull) \<or> (\<not> is_string key2 \<and> key2 \<noteq> JNull)
      then (None, emit ConsoleError s)
      else (case (key1, key2) of
              (JString a, JString b) \<Rightarrow>
                (Some (if areResponsesCaseSensitive s then a = b
                       else toLowerCase a = toLowerCase b), s)
            | _ \<Rightarrow> (Some (key1 = JNull \<and> key2 = JNull), s)))"

section \<open>Sequences of calls\<close>

text \<open>What reaches the object from outside: a key-down or key-up event of the root
  element, or an API call made by the experiment.\<close>

datatype op = KeyDown environment KeyboardEvent | KeyUp KeyboardEvent | ApiCall environment cmd

fun step :: "op \<Rightarrow> KeyboardListenerAPI \<Rightarrow> KeyboardListenerAPI" where
  "step (KeyDown env e) s = snd (rootKeydownListener env e s)"
| "step (KeyUp e) s = rootKeyupListener e s"
| "step (ApiCall env c) s = snd (run_cmd env c s)"

fun run :: "op list \<Rightarrow> KeyboardListenerAPI \<Rightarrow> KeyboardListenerAPI" where
  "run [] s = s"
| "run (x # xs) s = run xs (step x s)"

text \<open>How often the closure \<open>r\<close> has called its \<open>callback_function\<close>, and how often a
  normal listener has been invoked, in a trace.\<close>

definition callbacks_of :: "nat \<Rightarrow> effect list \<Rightarrow> effect list" where
  "callbacks_of r tr = filter (\<lambda>x. case x of CallbackInvoked w k t \<Rightarrow> w = r | _ \<Rightarrow> False) tr"

definition all_callbacks :: "effect list \<Rightarrow> effect list" where
  "all_callbacks tr = filter (\<lambda>x. case x of CallbackInvoked w k t \<Rightarrow> True | _ \<Rightarrow> False) tr"

definition listener_invocations :: "effect list \<Rightarrow> effect list" where
  "listener_invocations tr = filter (\<lambda>x. case x of ListenerInvoked r \<Rightarrow> True | _ \<Rightarrow> False) tr"

text \<open>The part of the trace that was added between two states, and the keys the
  callbacks of a trace were given.\<close>

definition emitted :: "KeyboardListenerAPI \<Rightarrow> KeyboardListenerAPI \<Rightarrow> effect list" where
  "emitted s s' = drop (length (trace s)) (trace s')"

definition callback_keys :: "effect list \<Rightarrow> string list" where
  "callback_keys tr =
     concat (map (\<lambda>x. case x of CallbackInvoked w k t \<Rightarrow> [k] | _ \<Rightarrow> []) tr)"

text \<open>A key-up event that releases the (normalised) key \<open>k\<close>.\<close>

fun releases :: "KeyboardListenerAPI \<Rightarrow> string \<Rightarrow> op \<Rightarrow> bool" where
  "releases s k (KeyUp e) = (toLowerCaseIfInsensitive s (e_key e) = k)"
| "releases s k (KeyDown env e) = False"
| "releases s k (ApiCall env c) = False"

text \<open>Well-formed states: function identities are unique. References in use lie below
  the next free one; the listener set and the queue hold no function twice; a token is
  not a listener.\<close>

definition wf :: "KeyboardListenerAPI \<Rightarrow> bool" where
  "wf s \<longleftrightarrow>
     distinct (map fn_ref (listeners s)) \<and>
     distinct (map fn_ref (highPriorityQueue s)) \<and>
     (\<forall>f \<in> set (listeners s) \<union> set (highPriorityQueue s). fn_ref f < next_ref s) \<and>
     (\<forall>f \<in> set (highPriorityQueue s). \<not> has_ref (fn_ref f) (listeners s)) \<and>
     (\<forall>t h. highPriorityTokenToHandler s t = Some h \<longrightarrow>
        t < next_ref s \<and> fn_ref h < next_ref s \<and> \<not> has_ref t (listeners s)
        \<and> \<not> has_ref (fn_ref h) (listeners s))"

text \<open>What every call preserves: references are handed out in increasing order, the
  configuration is constant, and a function with an old reference in the listener set or
  the queue was there before.\<close>

definition grows :: "KeyboardListenerAPI \<Rightarrow> KeyboardListenerAPI \<Rightarrow> bool" where
  "grows s s' \<longleftrightarrow>
     next_ref s \<le> next_ref s' \<and>
     areResponsesCaseSensitive s' = areResponsesCaseSensitive s \<and>
     minimumValidRt s' = minimumValidRt s \<and>
     (\<forall>f \<in> set (listeners s'). fn_ref f < next_ref s \<longrightarrow> f \<in> set (listeners s)) \<and>
     (\<forall>f \<in> set (highPriorityQueue s'). fn_ref f < next_ref s \<longrightarrow> f \<in> set (highPriorityQueue s))"

text \<open>A relation between the state before and after that every primitive step of the
  object respects (for the effects \<open>P\<close> allows) is respected by the closures and by the
  callbacks they run.\<close>

definition stable :: "(effect \<Rightarrow> bool) \<Rightarrow> (KeyboardListenerAPI \<Rightarrow> KeyboardListenerAPI \<Rightarrow> bool) \<Rightarrow> bool" where
  "stable P R \<longleftrightarrow>
     (\<forall>s. R s s) \<and>
     (\<forall>a b c. R a b \<longrightarrow> R b c \<longrightarrow> R a c) \<and>
     (\<forall>x s. P x \<longrightarrow> R s (emit x s)) \<and>
     (\<forall>h s. R s (cancelKeyboardResponse h s)) \<and>
     (\<forall>s. R s (cancelAllKeyboardResponses s)) \<and>
     (\<forall>env opts s. R s (snd (getKeyboardResponse env opts s)))"

text \<open>The effects a dispatch of the key \<open>k\<close> to the listeners \<open>L\<close> and handlers \<open>H\<close>
  may add to the trace.\<close>

definition dispatch_effect :: "nat set \<Rightarrow> nat set \<Rightarrow> string \<Rightarrow> effect \<Rightarrow> bool" where
  "dispatch_effect L H k x =
     (case x of
        ListenerInvoked r \<Rightarrow> r \<in> L
      | HandlerInvoked r \<Rightarrow> r \<in> H
      | CallbackInvoked w k' t \<Rightarrow> (w \<in> L \<or> w \<in> H) \<and> k' = k
      | _ \<Rightarrow> True)"

definition adds :: "(effect \<Rightarrow> bool) \<Rightarrow> KeyboardListenerAPI \<Rightarrow> KeyboardListenerAPI \<Rightarrow> bool" where
  "adds P s s' \<longleftrightarrow> (\<exists>xs. trace s' = trace s @ xs \<and> (\<forall>x \<in> set xs. P x))"

text \<open>Fixtures for the concrete runs: an environment whose clock reads \<open>t\<close>, options
  with every field but the callback left out, a callback that does nothing, and a freshly
  constructed object with the constructor's defaults.\<close>

definition env_at :: "rat \<Rightarrow> environment" where
  "env_at t = \<lparr> performance_now = t, audio_currentTime = (\<lambda>a. 0), rootElement = True \<rparr>"

definition default_options :: "callback \<Rightarrow> GetKeyboardResponseOptions" where
  "default_options cb = Options cb None None None None None None None None"

definition high_options :: "callback \<Rightarrow> GetKeyboardResponseOptions" where
  "high_options cb = Options cb None None None None None None None (Some PriorityHigh)"

definition silent :: callback where
  "silent = Callback (\<lambda>k t. [])"

definition fresh_api :: KeyboardListenerAPI where
  "fresh_api = new_KeyboardListenerAPI (env_at 0) None None"

text \<open>One normal listener (reference 0) and one high-priority listener (handler 1,
  token 2), both registered at time 0 on a fresh object.\<close>

definition normal_and_high :: KeyboardListenerAPI where
  "normal_and_high =
     snd (getKeyboardResponse (env_at 0) (high_options silent)
       (snd (getKeyboardResponse (env_at 0) (default_options silent) fresh_api)))"

text \<open>A normal listener (reference 0) and a high-priority listener (handler 1, token 2)
  that both ask for a reaction time of at least 200 ms, registered at time 0.\<close>

definition gated_options :: "Priority option \<Rightarrow> GetKeyboardResponseOptions" where
  "gated_options p = Options silent None None None None None None (Some 200) p"

definition gated_normal :: KeyboardListenerAPI where
  "gated_normal = snd (getKeyboardResponse (env_at 0) (gated_options None) fresh_api)"

definition gated_high :: KeyboardListenerAPI where
  "gated_high =
     snd (getKeyboardResponse (env_at 0) (gated_options (Some PriorityHigh)) gated_normal)"

text \<open>A normal listener (reference 0) on one fresh object and a high-priority listener
  (handler 0, token 1) on another, each accepting the key written \<open>"A"\<close> only and
  registered at time 0.\<close>

definition letter_options :: "Priority option \<Rightarrow> GetKeyboardResponseOptions" where
  "letter_options p = Options silent (Some (Keys [''A''])) None None None None None None p"

definition letter_normal :: KeyboardListenerAPI where
  "letter_normal = snd (getKeyboardResponse (env_at 0) (letter_options None) fresh_api)"

definition letter_high :: KeyboardListenerAPI where
  "letter_high =
     snd (getKeyboardResponse (env_at 0) (letter_options (Some PriorityHigh)) fresh_api)"

text \<open>A one-shot normal listener (reference 0) whose callback registers another one-shot
  listener, registered at time 0, and a run of three events: the key \<open>a\<close> goes down,
  up and down again.\<close>

definition rearm :: callback where
  "rearm = Callback (\<lambda>k t. [CallGetKeyboardResponse (default_options silent)])"

definition rearm_normal :: KeyboardListenerAPI where
  "rearm_normal = snd (getKeyboardResponse (env_at 0) (default_options rearm) fresh_api)"

definition down_up_down :: "op list" where
  "down_up_down =
     [KeyDown (env_at 250) (KeyboardEvent ''a''), KeyUp (KeyboardEvent ''a''),
      KeyDown (env_at 400) (KeyboardEvent ''a'')]"

text \<open>The invariant for a one-shot listener with reference \<open>r\<close>, and the budget of
  callbacks it still has: one while it is registered, none afterwards.\<close>

definition one_shot_inv :: "nat \<Rightarrow> KeyboardListenerAPI \<Rightarrow> bool" where
  "one_shot_inv r s \<longleftrightarrow>
     wf s \<and> r < next_ref s \<and> \<not> has_ref r (highPriorityQueue s) \<and>
     (\<forall>g \<in> set (listeners s). fn_ref g = r \<longrightarrow> persist (fn_env g) \<noteq> Some True)"

definition budget :: "nat \<Rightarrow> KeyboardListenerAPI \<Rightarrow> nat" where
  "budget r s = (if has_ref r (listeners s) then 1 else 0)"

text \<open>A persistent normal listener (reference 0) that accepts every key and disallows
  held keys, registered at time 0.\<close>

definition persistent_options :: GetKeyboardResponseOptions where
  "persistent_options = Options silent None None (Some True) None None None None None"

definition persistent_normal :: KeyboardListenerAPI where
  "persistent_normal = snd (getKeyboardResponse (env_at 0) persistent_options fresh_api)"

text \<open>A single high-priority listener (handler 0, token 1) that asks for a reaction
  time of at least 200 ms, registered at time 0.\<close>

definition gated_high_only :: KeyboardListenerAPI where
  "gated_high_only =
     snd (getKeyboardResponse (env_at 0) (gated_options (Some PriorityHigh)) fresh_api)"

text \<open>Two high-priority listeners registered at time 0 on a fresh object: A (handler 0,
  token 1) accepts the key \<open>a\<close> only, B (handler 2, token 3) accepts every key. In
  \<open>two_high_plain\<close> neither callback calls the API; in \<open>two_high_cancelling\<close> the
  callback of A cancels A's own token, as a callback that cleans up after itself does.\<close>

definition high_letter_options :: "callback \<Rightarrow> GetKeyboardResponseOptions" where
  "high_letter_options cb =
     Options cb (Some (Keys [''a''])) None None None None None None (Some PriorityHigh)"

definition cancel_own_token :: callback where
  "cancel_own_token = Callback (\<lambda>k t. [CallCancelKeyboardResponse 1])"

definition two_high_plain :: KeyboardListenerAPI where
  "two_high_plain =
     snd (getKeyboardResponse (env_at 0) (high_options silent)
       (snd (getKeyboardResponse (env_at 0) (high_letter_options silent) fresh_api)))"

definition two_high_cancelling :: KeyboardListenerAPI where
  "two_high_cancelling =
     snd (getKeyboardResponse (env_at 0) (high_options silent)
       (snd (getKeyboardResponse (env_at 0) (high_letter_options cancel_own_token) fresh_api)))"

text \<open>A persistent normal listener (reference 0) that disallows held keys and whose
  callback throws, and a high-priority listener (handler 0, token 1) with the same
  callback, each registered at time 0 on a fresh object; and two key-downs for the key
  \<open>a\<close> with no key-up in between.\<close>

definition throwing :: callback where
  "throwing = Callback (\<lambda>k t. [ThrowError])"

definition throwing_normal :: KeyboardListenerAPI where
  "throwing_normal =
     snd (getKeyboardResponse (env_at 0)
            (Options throwing None None (Some True) None None None None None) fresh_api)"

definition throwing_high :: KeyboardListenerAPI where
  "throwing_high = snd (getKeyboardResponse (env_at 0) (high_options throwing) fresh_api)"

definition down_down :: "op list" where
  "down_down =
     [KeyDown (env_at 250) (KeyboardEvent ''a''), KeyDown (env_at 280) (KeyboardEvent ''a'')]"

section \<open>What the operations leave unchanged\<close>

lemma emit_simps [simp]:
  "trace (emit x s) = trace s @ [x]"
  "listeners (emit x s) = listeners s"
  "heldKeys (emit x s) = heldKeys s"
  "highPriorityQueue (emit x s) = highPriorityQueue s"
  "highPriorityTokenToHandler (emit x s) = highPriorityTokenToHandler s"
  "highPriorityHandlerToToken (emit x s) = highPriorityHandlerToToken s"
  "next_ref (emit x s) = next_ref s"
  "areResponsesCaseSensitive (emit x s) = areResponsesCaseSensitive s"
  "minimumValidRt (emit x s) = minimumValidRt s"
  "areRootListenersRegistered (emit x s) = areRootListenersRegistered s"
  by (simp_all add: emit_def)

lemma registerRootListeners_simps [simp]:
  "trace (registerRootListeners env s) = trace s"
  "listeners (registerRootListeners env s) = listeners s"
  "heldKeys (registerRootListeners env s) = heldKeys s"
  "highPriorityQueue (registerRootListeners env s) = highPriorityQueue s"
  "highPriorityTokenToHandler (registerRootListeners env s) = highPriorityTokenToHandler s"
  "highPriorityHandlerToToken (registerRootListeners env s) = highPriorityHandlerToToken s"
  "next_ref (registerRootListeners env s) = next_ref s"
  "areResponsesCaseSensitive (registerRootListeners env s) = areResponsesCaseSensitive s"
  "minimumValidRt (registerRootListeners env s) = minimumValidRt s"
  by (simp_all add: registerRootListeners_def)

lemma cancelKeyboardResponse_frame [simp]:
  "trace (cancelKeyboardResponse h s) = trace s"
  "heldKeys (cancelKeyboardResponse h s) = heldKeys s"
  "next_ref (cancelKeyboardResponse h s) = next_ref s"
  "areResponsesCaseSensitive (cancelKeyboardResponse h s) = areResponsesCaseSensitive s"
  "minimumValidRt (cancelKeyboardResponse h s) = minimumValidRt s"
  "areRootListenersRegistered (cancelKeyboardResponse h s) = areRootListenersRegistered s"
  by (simp_all add: cancelKeyboardResponse_def split: option.splits)

lemma cancelAllKeyboardResponses_simps [simp]:
  "trace (cancelAllKeyboardResponses s) = trace s"
  "heldKeys (cancelAllKeyboardResponses s) = heldKeys s"
  "next_ref (cancelAllKeyboardResponses s) = next_ref s"
  "areResponsesCaseSensitive (cancelAllKeyboardResponses s) = areResponsesCaseSensitive s"
  "minimumValidRt (cancelAllKeyboardResponses s) = minimumValidRt s"
  "areRootListenersRegistered (cancelAllKeyboardResponses s) = areRootListenersRegistered s"
  "listeners (cancelAllKeyboardResponses s) = []"
  "highPriorityQueue (cancelAllKeyboardResponses s) = []"
  "highPriorityTokenToHandler (cancelAllKeyboardResponses s) = Map.empty"
  "highPriorityHandlerToToken (cancelAllKeyboardResponses s) = Map.empty"
  by (simp_all add: cancelAllKeyboardResponses_def)

lemma getKeyboardResponse_frame [simp]:
  "heldKeys (snd (getKeyboardResponse env opts s)) = heldKeys s"
  "areResponsesCaseSensitive (snd (getKeyboardResponse env opts s)) = areResponsesCaseSensitive s"
  "minimumValidRt (snd (getKeyboardResponse env opts s)) = minimumValidRt s"
  by (simp_all add: getKeyboardResponse_def Let_def)

lemma callbacks_of_simps [simp]:
  "callbacks_of r [] = []"
  "callbacks_of r (xs @ ys) = callbacks_of r xs @ callbacks_of r ys"
  "callbacks_of r [ConsoleLog] = []"
  "callbacks_of r [ConsoleError] = []"
  "callbacks_of r [PreventDefault] = []"
  "callbacks_of r [ListenerInvoked n] = []"
  "callbacks_of r [HandlerInvoked n] = []"
  "callbacks_of r [CallbackInvoked w k t] = (if w = r then [CallbackInvoked w k t] else [])"
  by (simp_all add: callbacks_of_def)

lemma all_callbacks_simps [simp]:
  "all_callbacks [] = []"
  "all_callbacks (xs @ ys) = all_callbacks xs @ all_callbacks ys"
  "all_callbacks [ConsoleLog] = []"
  "all_callbacks [ConsoleError] = []"
  "all_callbacks [PreventDefault] = []"
  "all_callbacks [ListenerInvoked n] = []"
  "all_callbacks [HandlerInvoked n] = []"
  "all_callbacks [CallbackInvoked w k t] = [CallbackInvoked w k t]"
  by (simp_all add: all_callbacks_def)

lemma listener_invocations_simps [simp]:
  "listener_invocations [] = []"
  "listener_invocations (xs @ ys) = listener_invocations xs @ listener_invocations ys"
  "listener_invocations [ConsoleLog] = []"
  "listener_invocations [ConsoleError] = []"
  "listener_invocations [PreventDefault] = []"
  "listener_invocations [ListenerInvoked n] = [ListenerInvoked n]"
  "listener_invocations [HandlerInvoked n] = []"
  "listener_invocations [CallbackInvoked w k t] = []"
  by (simp_all add: listener_invocations_def)


lemma getKeyboardResponse_trace:
  "\<exists>xs. trace (snd (getKeyboardResponse env opts s)) = trace s @ xs \<and> set xs \<subseteq> {ConsoleLog}"
  by (simp add: getKeyboardResponse_def Let_def)

lemma run_cmd_frame [simp]:
  "heldKeys (snd (run_cmd env c s)) = heldKeys s"
  "areResponsesCaseSensitive (snd (run_cmd env c s)) = areResponsesCaseSensitive s"
  "minimumValidRt (snd (run_cmd env c s)) = minimumValidRt s"
  by (cases c; simp)+

lemma run_cmd_trace:
  "\<exists>xs. trace (snd (run_cmd env c s)) = trace s @ xs \<and> set xs \<subseteq> {ConsoleLog}"
  using getKeyboardResponse_trace by (cases c) auto

lemma run_cmds_frame [simp]:
  "heldKeys (snd (run_cmds env cs s)) = heldKeys s"
  "areResponsesCaseSensitive (snd (run_cmds env cs s)) = areResponsesCaseSensitive s"
  "minimumValidRt (snd (run_cmds env cs s)) = minimumValidRt s"
proof (induction cs arbitrary: s)
  case Nil
  { case 1 show ?case by simp next
    case 2 show ?case by simp next
    case 3 show ?case by simp }
next
  case (Cons c cs)
  { case 1 show ?case using Cons.IH(1)[of "snd (run_cmd env c s)"] run_cmd_frame(1)[of env c s]
      by (cases "run_cmd env c s") (auto split: completion.splits)
  next
    case 2 show ?case using Cons.IH(2)[of "snd (run_cmd env c s)"] run_cmd_frame(2)[of env c s]
      by (cases "run_cmd env c s") (auto split: completion.splits)
  next
    case 3 show ?case using Cons.IH(3)[of "snd (run_cmd env c s)"] run_cmd_frame(3)[of env c s]
      by (cases "run_cmd env c s") (auto split: completion.splits) }
qed

lemma run_cmds_trace:
  "\<exists>xs. trace (snd (run_cmds env cs s)) = trace s @ xs \<and> set xs \<subseteq> {ConsoleLog}"
proof (induction cs arbitrary: s)
  case Nil
  then show ?case by simp
next
  case (Cons c cs)
  obtain xs where xs: "trace (snd (run_cmd env c s)) = trace s @ xs" "set xs \<subseteq> {ConsoleLog}"
    using run_cmd_trace by blast
  obtain ys where ys: "trace (snd (run_cmds env cs (snd (run_cmd env c s)))) = trace (snd (run_cmd env c s)) @ ys"
     "set ys \<subseteq> {ConsoleLog}"
    using Cons.IH by blast
  show ?case
  proof (cases "run_cmd env c s")
    case (Pair r s')
    then show ?thesis using xs ys by (cases r) auto
  qed
qed

lemma grows_refl [simp]: "grows s s"
  by (simp add: grows_def)

lemma grows_trans: "grows a b \<Longrightarrow> grows b c \<Longrightarrow> grows a c"
  unfolding grows_def
proof (intro conjI ballI impI)
  fix f assume a: "next_ref a \<le> next_ref b \<and>
    areResponsesCaseSensitive b = areResponsesCaseSensitive a \<and>
    minimumValidRt b = minimumValidRt a \<and>
    (\<forall>f\<in>set (listeners b). fn_ref f < next_ref a \<longrightarrow> f \<in> set (listeners a)) \<and>
    (\<forall>f\<in>set (highPriorityQueue b). fn_ref f < next_ref a \<longrightarrow> f \<in> set (highPriorityQueue a))"
   and b: "next_ref b \<le> next_ref c \<and>
    areResponsesCaseSensitive c = areResponsesCaseSensitive b \<and>
    minimumValidRt c = minimumValidRt b \<and>
    (\<forall>f\<in>set (listeners c). fn_ref f < next_ref b \<longrightarrow> f \<in> set (listeners b)) \<and>
    (\<forall>f\<in>set (highPriorityQueue c). fn_ref f < next_ref b \<longrightarrow> f \<in> set (highPriorityQueue b))"
  { assume "f \<in> set (listeners c)" "fn_ref f < next_ref a"
    then show "f \<in> set (listeners a)" using a b by (meson less_le_trans) }
  { assume "f \<in> set (highPriorityQueue c)" "fn_ref f < next_ref a"
    then show "f \<in> set (highPriorityQueue a)" using a b by (meson less_le_trans) }
qed auto

lemma has_ref_simps [simp]:
  "has_ref r [] = False"
  "has_ref r (f # fs) = (fn_ref f = r \<or> has_ref r fs)"
  "has_ref r (fs @ gs) = (has_ref r fs \<or> has_ref r gs)"
  by (auto simp: has_ref_def)

lemma has_ref_delete_ref [simp]: "has_ref r (delete_ref q fs) = (r \<noteq> q \<and> has_ref r fs)"
  by (auto simp: has_ref_def delete_ref_def)

lemma set_delete_ref: "set (delete_ref q fs) = {f \<in> set fs. fn_ref f \<noteq> q}"
  by (auto simp: delete_ref_def)

lemma set_splice_ref_subset: "set (splice_ref q fs) \<subseteq> set fs"
  by (induction fs) auto

lemma has_ref_splice_ref: "has_ref r (splice_ref q fs) \<Longrightarrow> has_ref r fs"
  using set_splice_ref_subset by (fastforce simp: has_ref_def)

lemma splice_ref_distinct:
  "distinct (map fn_ref fs) \<Longrightarrow> splice_ref q fs = delete_ref q fs"
proof (induction fs)
  case Nil
  show ?case by (simp add: delete_ref_def)
next
  case (Cons a fs)
  show ?case
  proof (cases "fn_ref a = q")
    case True
    with Cons.prems have "q \<notin> fn_ref ` set fs" by simp
    then have "\<forall>x\<in>set fs. fn_ref x \<noteq> q" by blast
    then have "filter (\<lambda>f. fn_ref f \<noteq> q) fs = fs" by (simp add: filter_True)
    with True show ?thesis by (simp add: delete_ref_def)
  next
    case False
    with Cons show ?thesis by (simp add: delete_ref_def)
  qed
qed

lemma distinct_delete_ref: "distinct (map fn_ref fs) \<Longrightarrow> distinct (map fn_ref (delete_ref q fs))"
  by (simp add: delete_ref_def distinct_map_filter)

lemma distinct_add_fn: "distinct (map fn_ref fs) \<Longrightarrow> distinct (map fn_ref (add_fn f fs))"
  by (auto simp: add_fn_def has_ref_def)

lemma set_add_fn: "set (add_fn f fs) \<subseteq> insert f (set fs)"
  by (auto simp: add_fn_def)

lemma cancelKeyboardResponse_listeners:
  "listeners (cancelKeyboardResponse h s) = delete_ref h (listeners s)"
  by (auto simp: cancelKeyboardResponse_def delete_ref_def has_ref_def split: option.splits
           intro!: filter_True [symmetric])

lemma cancelKeyboardResponse_queue_subset:
  "set (highPriorityQueue (cancelKeyboardResponse h s)) \<subseteq> set (highPriorityQueue s)"
  using set_splice_ref_subset by (auto simp: cancelKeyboardResponse_def split: option.splits)

lemma grows_emit [simp]: "grows s (emit x s)"
  by (simp add: grows_def)

lemma grows_cancel: "grows s (cancelKeyboardResponse h s)"
  using cancelKeyboardResponse_queue_subset [of h s]
  by (auto simp: grows_def cancelKeyboardResponse_listeners set_delete_ref)

lemma grows_cancelAll: "grows s (cancelAllKeyboardResponses s)"
  by (simp add: grows_def)

lemma getKeyboardResponse_next_ref:
  "next_ref s \<le> next_ref (snd (getKeyboardResponse env opts s))"
  by (simp add: getKeyboardResponse_def Let_def)

lemma getKeyboardResponse_listeners:
  "set (listeners (snd (getKeyboardResponse env opts s))) \<subseteq>
     set (listeners s) \<union> {f. fn_ref f = next_ref s}"
proof -
  have "set (add_fn (Fn (next_ref s) c) (listeners s)) \<subseteq> set (listeners s) \<union> {f. fn_ref f = next_ref s}" for c
    using set_add_fn [of "Fn (next_ref s) c" "listeners s"] by auto
  then show ?thesis
    by (simp add: getKeyboardResponse_def Let_def)
qed

lemma getKeyboardResponse_queue:
  "set (highPriorityQueue (snd (getKeyboardResponse env opts s))) \<subseteq>
     set (highPriorityQueue s) \<union> {f. fn_ref f = next_ref s}"
  by (auto simp: getKeyboardResponse_def Let_def)

lemma grows_getKeyboardResponse: "grows s (snd (getKeyboardResponse env opts s))"
  using getKeyboardResponse_listeners [of env opts s] getKeyboardResponse_queue [of env opts s]
    getKeyboardResponse_next_ref [of s env opts]
  by (fastforce simp: grows_def)

lemma grows_run_cmd: "grows s (snd (run_cmd env c s))"
  by (cases c) (simp_all add: grows_cancel grows_cancelAll grows_getKeyboardResponse)

lemma snd_run_cmds_Cons:
  "snd (run_cmds env (c # cs) s) =
     (case fst (run_cmd env c s) of
        Throw err \<Rightarrow> snd (run_cmd env c s)
      | Return u \<Rightarrow> snd (run_cmds env cs (snd (run_cmd env c s))))"
  by (cases "run_cmd env c s") (auto split: completion.splits)

lemma grows_run_cmds: "grows s (snd (run_cmds env cs s))"
proof (induction cs arbitrary: s)
  case Nil
  show ?case by simp
next
  case (Cons c cs)
  show ?case
    unfolding snd_run_cmds_Cons
    using grows_run_cmd [of s env c] Cons.IH [of "snd (run_cmd env c s)"]
    by (auto split: completion.splits intro: grows_trans)
qed

lemma grows_invoke_callback: "grows s (snd (invoke_callback env r cb k t s))"
  using grows_run_cmds grows_emit grows_trans
  by (cases cb) (fastforce simp: invoke_callback_def)

lemma grows_listener_call: "grows s (snd (listener_call env e l s))"
proof -
  have a: "grows s (emit PreventDefault s)" by simp
  have b: "grows s (cancelKeyboardResponse (fn_ref l) (emit PreventDefault s))"
    using grows_trans [OF a grows_cancel] .
  show ?thesis
    using grows_trans [OF a grows_invoke_callback] grows_trans [OF b grows_invoke_callback]
    by (auto simp: listener_call_def Let_def split: completion.splits)
qed

lemma grows_handler_call: "grows s (snd (handler_call env e h s))"
proof -
  have a: "grows s (emit PreventDefault s)" by simp
  show ?thesis
    using grows_trans [OF a grows_invoke_callback]
    by (auto simp: handler_call_def Let_def split: completion.splits prod.splits)
      (metis snd_conv)+
qed

lemma stableD:
  assumes "stable P R"
  shows "R s s"
    and "R a b \<Longrightarrow> R b c \<Longrightarrow> R a c"
    and "P x \<Longrightarrow> R s (emit x s)"
    and "R s (cancelKeyboardResponse h s)"
    and "R s (cancelAllKeyboardResponses s)"
    and "R s (snd (getKeyboardResponse env opts s))"
  using assms unfolding stable_def by blast+

lemma stable_run_cmd:
  assumes "stable P R"
  shows "R s (snd (run_cmd env c s))"
  using stableD [OF assms] by (cases c) simp_all

lemma stable_run_cmds:
  assumes "stable P R"
  shows "R s (snd (run_cmds env cs s))"
proof (induction cs arbitrary: s)
  case Nil
  show ?case using stableD(1) [OF assms] by simp
next
  case (Cons c cs)
  show ?case
    unfolding snd_run_cmds_Cons
    using stable_run_cmd [OF assms, of s env c] Cons.IH [of "snd (run_cmd env c s)"]
      stableD(2) [OF assms]
    by (auto split: completion.splits)
qed

lemma stable_invoke_callback:
  assumes "stable P R" and "P (CallbackInvoked r k t)"
  shows "R s (snd (invoke_callback env r cb k t s))"
proof (cases cb)
  case (Callback body)
  have "R s (emit (CallbackInvoked r k t) s)"
    using stableD(3) [OF assms(1)] assms(2) by blast
  moreover have "R (emit (CallbackInvoked r k t) s)
     (snd (run_cmds env (body k t) (emit (CallbackInvoked r k t) s)))"
    using stable_run_cmds [OF assms(1)] .
  ultimately show ?thesis
    using stableD(2) [OF assms(1)] Callback by (auto simp: invoke_callback_def)
qed

lemma snd_listener_call_cases:
  "snd (listener_call env e l s) = s \<or>
   (\<exists>rt. snd (listener_call env e l s) =
      snd (invoke_callback env (fn_ref l) (callback_function (fn_env l)) (e_key e) rt
             (emit PreventDefault s))) \<or>
   (\<exists>rt. snd (listener_call env e l s) =
      snd (invoke_callback env (fn_ref l) (callback_function (fn_env l)) (e_key e) rt
             (cancelKeyboardResponse (fn_ref l) (emit PreventDefault s))))"
  by (auto simp: listener_call_def Let_def split: completion.splits)

lemma stable_listener_call:
  assumes "stable P R" and "P PreventDefault" and "\<And>t. P (CallbackInvoked (fn_ref l) (e_key e) t)"
  shows "R s (snd (listener_call env e l s))"
proof -
  note st = stableD [OF assms(1)]
  have a: "R s (emit PreventDefault s)" using st(3) assms(2) by blast
  have b: "R s (cancelKeyboardResponse (fn_ref l) (emit PreventDefault s))"
    using st(2) [OF a st(4)] .
  have c: "R s' (snd (invoke_callback env (fn_ref l) cb (e_key e) rt s'))" for s' cb rt
    using stable_invoke_callback [OF assms(1) assms(3)] .
  show ?thesis
    using snd_listener_call_cases [of env e l s] st(1) st(2) [OF a c] st(2) [OF b c]
    by auto
qed

lemma snd_handler_call_cases:
  "snd (handler_call env e h s) = s \<or>
   (\<exists>rt. snd (handler_call env e h s) =
      snd (invoke_callback env (fn_ref h) (callback_function (fn_env h)) (e_key e) rt
             (emit PreventDefault s)))"
  by (auto simp: handler_call_def Let_def split: completion.splits prod.splits)
    (metis snd_conv)+

lemma stable_handler_call:
  assumes "stable P R" and "P PreventDefault" and "\<And>t. P (CallbackInvoked (fn_ref h) (e_key e) t)"
  shows "R s (snd (handler_call env e h s))"
proof -
  note st = stableD [OF assms(1)]
  have a: "R s (emit PreventDefault s)" using st(3) assms(2) by blast
  have c: "R s' (snd (invoke_callback env (fn_ref h) cb (e_key e) rt s'))" for s' cb rt
    using stable_invoke_callback [OF assms(1) assms(3)] .
  show ?thesis
    using snd_handler_call_cases [of env e h s] st(1) st(2) [OF a c]
    by auto
qed

lemma snd_call_listeners_Cons:
  "snd (call_listeners env e (l # ls) s) =
     (case fst (listener_call env e l (emit (ListenerInvoked (fn_ref l)) s)) of
        Throw err \<Rightarrow> snd (listener_call env e l (emit (ListenerInvoked (fn_ref l)) s))
      | Return u \<Rightarrow>
          snd (call_listeners env e ls (snd (listener_call env e l (emit (ListenerInvoked (fn_ref l)) s)))))"
  by (cases "listener_call env e l (emit (ListenerInvoked (fn_ref l)) s)")
    (auto split: completion.splits)

lemma stable_call_listeners:
  assumes "stable P R" and "P PreventDefault"
    and "\<And>l t. l \<in> set ls \<Longrightarrow> P (CallbackInvoked (fn_ref l) (e_key e) t)"
    and "\<And>l. l \<in> set ls \<Longrightarrow> P (ListenerInvoked (fn_ref l))"
  shows "R s (snd (call_listeners env e ls s))"
  using assms(3,4)
proof (induction ls arbitrary: s)
  case Nil
  show ?case using stableD(1) [OF assms(1)] by simp
next
  case (Cons l ls)
  note st = stableD [OF assms(1)]
  let ?s1 = "emit (ListenerInvoked (fn_ref l)) s"
  let ?s2 = "snd (listener_call env e l ?s1)"
  have a: "R s ?s1" using st(3) Cons.prems(2) by simp
  have b: "R ?s1 ?s2"
    using stable_listener_call [OF assms(1) assms(2)] Cons.prems(1) by simp
  have c: "R ?s2 (snd (call_listeners env e ls ?s2))"
    using Cons.IH Cons.prems by simp
  show ?case
    unfolding snd_call_listeners_Cons
    using st(2) [OF a b] st(2) [OF st(2) [OF a b] c]
    by (auto split: completion.splits)
qed

lemma wfD:
  assumes "wf s"
  shows "distinct (map fn_ref (listeners s))"
    and "distinct (map fn_ref (highPriorityQueue s))"
    and "f \<in> set (listeners s) \<Longrightarrow> fn_ref f < next_ref s"
    and "f \<in> set (highPriorityQueue s) \<Longrightarrow> fn_ref f < next_ref s"
    and "f \<in> set (highPriorityQueue s) \<Longrightarrow> \<not> has_ref (fn_ref f) (listeners s)"
    and "highPriorityTokenToHandler s t = Some h \<Longrightarrow> t < next_ref s"
    and "highPriorityTokenToHandler s t = Some h \<Longrightarrow> fn_ref h < next_ref s"
    and "highPriorityTokenToHandler s t = Some h \<Longrightarrow> \<not> has_ref t (listeners s)"
    and "highPriorityTokenToHandler s t = Some h \<Longrightarrow> \<not> has_ref (fn_ref h) (listeners s)"
  using assms unfolding wf_def by blast+

lemma wfI:
  assumes "distinct (map fn_ref (listeners s))"
    and "distinct (map fn_ref (highPriorityQueue s))"
    and "\<And>f. f \<in> set (listeners s) \<Longrightarrow> fn_ref f < next_ref s"
    and "\<And>f. f \<in> set (highPriorityQueue s) \<Longrightarrow> fn_ref f < next_ref s"
    and "\<And>f. f \<in> set (highPriorityQueue s) \<Longrightarrow> \<not> has_ref (fn_ref f) (listeners s)"
    and "\<And>t h. highPriorityTokenToHandler s t = Some h \<Longrightarrow>
           t < next_ref s \<and> fn_ref h < next_ref s \<and> \<not> has_ref t (listeners s)
           \<and> \<not> has_ref (fn_ref h) (listeners s)"
  shows "wf s"
  using assms unfolding wf_def by blast

lemma has_ref_bound: "\<forall>f \<in> set fs. fn_ref f < n \<Longrightarrow> n \<le> r \<Longrightarrow> \<not> has_ref r fs"
  unfolding has_ref_def by (metis imageE not_le)

lemma wf_emit [simp]: "wf (emit x s) = wf s"
  by (simp add: wf_def)

lemma distinct_splice_ref: "distinct (map fn_ref fs) \<Longrightarrow> distinct (map fn_ref (splice_ref q fs))"
  by (simp add: splice_ref_distinct distinct_delete_ref)

lemma wf_cancel: "wf s \<Longrightarrow> wf (cancelKeyboardResponse h s)"
proof -
  assume w: "wf s"
  show ?thesis
  proof (cases "has_ref h (listeners s)")
    case True
    then have eq: "cancelKeyboardResponse h s = s\<lparr>listeners := delete_ref h (listeners s)\<rparr>"
      by (simp add: cancelKeyboardResponse_def)
    show ?thesis unfolding eq using w
      by (auto simp: wf_def distinct_delete_ref set_delete_ref)
  next
    case False
    show ?thesis
    proof (cases "highPriorityTokenToHandler s h")
      case None
      with False w show ?thesis by (simp add: cancelKeyboardResponse_def)
    next
      case (Some handler)
      with False have eq: "cancelKeyboardResponse h s =
         s\<lparr>highPriorityQueue := splice_ref (fn_ref handler) (highPriorityQueue s),
           highPriorityTokenToHandler := (highPriorityTokenToHandler s)(h := None),
           highPriorityHandlerToToken := (highPriorityHandlerToToken s)(fn_ref handler := None)\<rparr>"
        by (simp add: cancelKeyboardResponse_def)
      have sub: "set (splice_ref (fn_ref handler) (highPriorityQueue s)) \<subseteq> set (highPriorityQueue s)"
        by (rule set_splice_ref_subset)
      show ?thesis unfolding eq using w sub
        by (auto simp: wf_def distinct_splice_ref split: if_splits)
    qed
  qed
qed

lemma wf_cancelAll: "wf s \<Longrightarrow> wf (cancelAllKeyboardResponses s)"
  by (simp add: wf_def)

lemma wf_registerRootListeners [simp]: "wf (registerRootListeners env s) = wf s"
  by (simp add: wf_def)

lemma wf_add_listener:
  assumes "wf s"
  shows "wf (s\<lparr>listeners := add_fn (Fn (next_ref s) c) (listeners s), next_ref := next_ref s + 1\<rparr>)"
    (is "wf ?s'")
proof -
  note w = wfD [OF assms]
  have nr: "\<not> has_ref (next_ref s) (listeners s)"
    using has_ref_bound [of "listeners s" "next_ref s" "next_ref s"] w(3) by blast
  then have eq: "listeners ?s' = listeners s @ [Fn (next_ref s) c]"
    by (simp add: add_fn_def)
  have hr: "has_ref r (listeners ?s') = (r = next_ref s \<or> has_ref r (listeners s))" for r
    unfolding eq by auto
  show ?thesis
  proof (rule wfI)
    show "distinct (map fn_ref (listeners ?s'))"
      unfolding eq using w(1) nr by (simp add: has_ref_def)
    show "distinct (map fn_ref (highPriorityQueue ?s'))" using w(2) by simp
    show "fn_ref f < next_ref ?s'" if "f \<in> set (listeners ?s')" for f
      using that w(3) [of f] unfolding eq by (auto simp: less_Suc_eq)
    show "fn_ref f < next_ref ?s'" if "f \<in> set (highPriorityQueue ?s')" for f
      using that w(4) [of f] by (auto simp: less_Suc_eq)
    show "\<not> has_ref (fn_ref f) (listeners ?s')" if "f \<in> set (highPriorityQueue ?s')" for f
      unfolding hr using that w(4) [of f] w(5) [of f] by auto
    show "t < next_ref ?s' \<and> fn_ref h < next_ref ?s' \<and> \<not> has_ref t (listeners ?s')
           \<and> \<not> has_ref (fn_ref h) (listeners ?s')"
      if "highPriorityTokenToHandler ?s' t = Some h" for t h
      unfolding hr using that w(6) [of t h] w(7) [of t h] w(8) [of t h] w(9) [of t h]
      by (auto simp: less_Suc_eq)
  qed
qed

lemma wf_add_handler:
  assumes "wf s"
  shows "wf (s\<lparr>highPriorityQueue := highPriorityQueue s @ [Fn (next_ref s) c],
              highPriorityTokenToHandler :=
                (highPriorityTokenToHandler s)(next_ref s + 1 \<mapsto> Fn (next_ref s) c),
              highPriorityHandlerToToken :=
                (highPriorityHandlerToToken s)(next_ref s \<mapsto> next_ref s + 1),
              next_ref := next_ref s + 2\<rparr>)"
    (is "wf ?s'")
proof -
  note w = wfD [OF assms]
  have nl: "\<not> has_ref r (listeners s)" if "next_ref s \<le> r" for r
    using has_ref_bound [of "listeners s" "next_ref s" r] w(3) that by blast
  have nq: "\<not> has_ref r (highPriorityQueue s)" if "next_ref s \<le> r" for r
    using has_ref_bound [of "highPriorityQueue s" "next_ref s" r] w(4) that by blast
  show ?thesis
  proof (rule wfI)
    show "distinct (map fn_ref (listeners ?s'))" using w(1) by simp
    show "distinct (map fn_ref (highPriorityQueue ?s'))"
      using w(2) nq [of "next_ref s"] by (simp add: has_ref_def)
    show "fn_ref f < next_ref ?s'" if "f \<in> set (listeners ?s')" for f
      using that w(3) [of f] by auto
    show "fn_ref f < next_ref ?s'" if "f \<in> set (highPriorityQueue ?s')" for f
      using that w(4) [of f] by auto
    show "\<not> has_ref (fn_ref f) (listeners ?s')" if "f \<in> set (highPriorityQueue ?s')" for f
      using that w(5) [of f] nl [of "next_ref s"] by auto
    show "t < next_ref ?s' \<and> fn_ref h < next_ref ?s' \<and> \<not> has_ref t (listeners ?s')
           \<and> \<not> has_ref (fn_ref h) (listeners ?s')"
      if "highPriorityTokenToHandler ?s' t = Some h" for t h
    proof (cases "t = next_ref s + 1")
      case True
      with that have "h = Fn (next_ref s) c" by simp
      with True show ?thesis using nl [of "next_ref s"] nl [of "next_ref s + 1"] by simp
    next
      case False
      with that have "highPriorityTokenToHandler s t = Some h" by simp
      then show ?thesis using w(6) [of t h] w(7) [of t h] w(8) [of t h] w(9) [of t h] by auto
    qed
  qed
qed

lemma wf_getKeyboardResponse: "wf s \<Longrightarrow> wf (snd (getKeyboardResponse env opts s))"
proof -
  assume w: "wf s"
  define s1 where "s1 = registerRootListeners env
     (if (case opt_rt_method opts of None \<Rightarrow> ''performance'' | Some m \<Rightarrow> m) \<noteq> ''performance'' \<and>
         (case opt_rt_method opts of None \<Rightarrow> ''performance'' | Some m \<Rightarrow> m) \<noteq> ''audio''
      then emit ConsoleLog s else s)"
  have w1: "wf s1" using w by (simp add: s1_def)
  show ?thesis
    using wf_add_listener [OF w1] wf_add_handler [OF w1]
    unfolding getKeyboardResponse_def Let_def s1_def [symmetric]
    by (simp split: if_splits)
qed

lemma add_held_simps [simp]:
  "trace (add_held e s) = trace s"
  "listeners (add_held e s) = listeners s"
  "heldKeys (add_held e s) = insert (toLowerCaseIfInsensitive s (e_key e)) (heldKeys s)"
  "highPriorityQueue (add_held e s) = highPriorityQueue s"
  "highPriorityTokenToHandler (add_held e s) = highPriorityTokenToHandler s"
  "highPriorityHandlerToToken (add_held e s) = highPriorityHandlerToToken s"
  "next_ref (add_held e s) = next_ref s"
  "areResponsesCaseSensitive (add_held e s) = areResponsesCaseSensitive s"
  "minimumValidRt (add_held e s) = minimumValidRt s"
  by (simp_all add: add_held_def)

lemma shift_handled_simps [simp]:
  "trace (shift_handled h s) = trace s"
  "listeners (shift_handled h s) = listeners s"
  "heldKeys (shift_handled h s) = heldKeys s"
  "highPriorityQueue (shift_handled h s) = tl (highPriorityQueue s)"
  "next_ref (shift_handled h s) = next_ref s"
  "areResponsesCaseSensitive (shift_handled h s) = areResponsesCaseSensitive s"
  "minimumValidRt (shift_handled h s) = minimumValidRt s"
  by (simp_all add: shift_handled_def Let_def split: option.splits)

lemma rootKeyupListener_simps [simp]:
  "trace (rootKeyupListener e s) = trace s"
  "listeners (rootKeyupListener e s) = listeners s"
  "heldKeys (rootKeyupListener e s) = heldKeys s - {toLowerCaseIfInsensitive s (e_key e)}"
  "highPriorityQueue (rootKeyupListener e s) = highPriorityQueue s"
  "highPriorityTokenToHandler (rootKeyupListener e s) = highPriorityTokenToHandler s"
  "highPriorityHandlerToToken (rootKeyupListener e s) = highPriorityHandlerToToken s"
  "next_ref (rootKeyupListener e s) = next_ref s"
  "areResponsesCaseSensitive (rootKeyupListener e s) = areResponsesCaseSensitive s"
  "minimumValidRt (rootKeyupListener e s) = minimumValidRt s"
  by (simp_all add: rootKeyupListener_def)

lemma rootKeydownListener_empty:
  "highPriorityQueue s = [] \<Longrightarrow>
   rootKeydownListener env e s =
     (case call_listeners env e (listeners s) s of
        (Throw err, s3) \<Rightarrow> (Throw err, s3)
      | (Return u, s3) \<Rightarrow> (Return (), add_held e s3))"
  by (simp add: rootKeydownListener_def)

lemma rootKeydownListener_head:
  "highPriorityQueue s = h # q \<Longrightarrow>
   rootKeydownListener env e s =
     (case handler_call env e h (emit (HandlerInvoked (fn_ref h)) s) of
        (Throw err, s1) \<Rightarrow> (Throw err, s1)
      | (Return handled, s1) \<Rightarrow>
          (Return (), add_held e (if handled then shift_handled h s1 else s1)))"
  by (simp add: rootKeydownListener_def split: prod.splits completion.splits)

lemma stable_grows: "stable (\<lambda>x. True) grows"
  unfolding stable_def
  using grows_trans grows_cancel grows_cancelAll grows_getKeyboardResponse by auto

lemma stable_wf: "stable (\<lambda>x. True) (\<lambda>a b. wf a \<longrightarrow> wf b)"
  unfolding stable_def
  using wf_cancel wf_cancelAll wf_getKeyboardResponse by auto

lemma stable_heldKeys: "stable (\<lambda>x. True) (\<lambda>a b. heldKeys b = heldKeys a)"
  unfolding stable_def by simp

lemma adds_refl [simp]: "adds P s s"
  by (simp add: adds_def)

lemma adds_trans: "adds P a b \<Longrightarrow> adds P b c \<Longrightarrow> adds P a c"
  by (fastforce simp: adds_def)

lemma adds_emit: "P x \<Longrightarrow> adds P s (emit x s)"
  by (simp add: adds_def)

lemma adds_same_trace: "trace s' = trace s \<Longrightarrow> adds P s s'"
  by (simp add: adds_def)

lemma adds_mono: "adds P s s' \<Longrightarrow> (\<And>x. P x \<Longrightarrow> Q x) \<Longrightarrow> adds Q s s'"
  by (fastforce simp: adds_def)

lemma adds_getKeyboardResponse:
  "P ConsoleLog \<Longrightarrow> adds P s (snd (getKeyboardResponse env opts s))"
  using getKeyboardResponse_trace [of env opts s] by (fastforce simp: adds_def)

lemma stable_adds: "P ConsoleLog \<Longrightarrow> stable P (adds P)"
  unfolding stable_def
  using adds_trans [of P] adds_emit [of P] adds_getKeyboardResponse [of P]
  by (auto intro: adds_same_trace)

lemma adds_emitted: "adds P s s' \<Longrightarrow> trace s' = trace s @ emitted s s' \<and> (\<forall>x \<in> set (emitted s s'). P x)"
  by (auto simp: adds_def emitted_def)

lemma adds_callbacks_of:
  assumes "adds P s s'" and "\<And>k t. \<not> P (CallbackInvoked r k t)"
  shows "callbacks_of r (trace s') = callbacks_of r (trace s)"
proof -
  obtain xs where xs: "trace s' = trace s @ xs" "\<forall>x \<in> set xs. P x"
    using assms(1) unfolding adds_def by blast
  have "\<forall>x \<in> set xs. \<not> (case x of CallbackInvoked w k t \<Rightarrow> w = r | _ \<Rightarrow> False)"
    using xs(2) assms(2) by (auto split: effect.splits)
  then have "callbacks_of r xs = []"
    unfolding callbacks_of_def by (simp add: filter_False)
  then show ?thesis using xs(1) by simp
qed

lemma adds_all_callbacks:
  assumes "adds P s s'" and "\<And>r k t. \<not> P (CallbackInvoked r k t)"
  shows "all_callbacks (trace s') = all_callbacks (trace s)"
proof -
  obtain xs where xs: "trace s' = trace s @ xs" "\<forall>x \<in> set xs. P x"
    using assms(1) unfolding adds_def by blast
  have "\<forall>x \<in> set xs. \<not> (case x of CallbackInvoked w k t \<Rightarrow> True | _ \<Rightarrow> False)"
    using xs(2) assms(2) by (auto split: effect.splits)
  then have "all_callbacks xs = []"
    unfolding all_callbacks_def by (simp add: filter_False)
  then show ?thesis using xs(1) by simp
qed

lemma adds_listener_invocations:
  assumes "adds P s s'" and "\<And>r. \<not> P (ListenerInvoked r)"
  shows "listener_invocations (trace s') = listener_invocations (trace s)"
proof -
  obtain xs where xs: "trace s' = trace s @ xs" "\<forall>x \<in> set xs. P x"
    using assms(1) unfolding adds_def by blast
  have "\<forall>x \<in> set xs. \<not> (case x of ListenerInvoked r \<Rightarrow> True | _ \<Rightarrow> False)"
    using xs(2) assms(2) by (auto split: effect.splits)
  then have "listener_invocations xs = []"
    unfolding listener_invocations_def by (simp add: filter_False)
  then show ?thesis using xs(1) by simp
qed

lemma snd_rootKeydownListener_empty:
  "highPriorityQueue s = [] \<Longrightarrow>
   snd (rootKeydownListener env e s) =
     (case fst (call_listeners env e (listeners s) s) of
        Throw err \<Rightarrow> snd (call_listeners env e (listeners s) s)
      | Return u \<Rightarrow> add_held e (snd (call_listeners env e (listeners s) s)))"
  by (cases "call_listeners env e (listeners s) s")
    (auto simp: rootKeydownListener_empty split: completion.splits)

lemma snd_rootKeydownListener_head:
  "highPriorityQueue s = h # q \<Longrightarrow>
   snd (rootKeydownListener env e s) =
     (case fst (handler_call env e h (emit (HandlerInvoked (fn_ref h)) s)) of
        Throw err \<Rightarrow> snd (handler_call env e h (emit (HandlerInvoked (fn_ref h)) s))
      | Return handled \<Rightarrow>
          add_held e (if handled
                      then shift_handled h (snd (handler_call env e h (emit (HandlerInvoked (fn_ref h)) s)))
                      else snd (handler_call env e h (emit (HandlerInvoked (fn_ref h)) s))))"
  by (cases "handler_call env e h (emit (HandlerInvoked (fn_ref h)) s)")
    (auto simp: rootKeydownListener_head split: completion.splits)

lemma stable_rootKeydownListener:
  assumes st: "stable P R" and pd: "P PreventDefault"
    and hd: "\<And>h q t. highPriorityQueue s = h # q \<Longrightarrow>
               P (CallbackInvoked (fn_ref h) (e_key e) t) \<and> P (HandlerInvoked (fn_ref h))"
    and ls: "\<And>l t. highPriorityQueue s = [] \<Longrightarrow> l \<in> set (listeners s) \<Longrightarrow>
               P (CallbackInvoked (fn_ref l) (e_key e) t) \<and> P (ListenerInvoked (fn_ref l))"
    and sh: "\<And>h s. R s (shift_handled h s)"
    and ah: "\<And>s. R s (add_held e s)"
  shows "R s (snd (rootKeydownListener env e s))"
proof (cases "highPriorityQueue s")
  case Nil
  have a: "R s (snd (call_listeners env e (listeners s) s))"
    using stable_call_listeners [OF st pd] ls [OF Nil] by blast
  show ?thesis
    unfolding snd_rootKeydownListener_empty [OF Nil]
    using a stableD(2) [OF st a ah] by (auto split: completion.splits)
next
  case (Cons h q)
  let ?s1 = "emit (HandlerInvoked (fn_ref h)) s"
  let ?s2 = "snd (handler_call env e h ?s1)"
  have a: "R s ?s1" using stableD(3) [OF st] hd [OF Cons] by blast
  have b: "R ?s1 ?s2" using stable_handler_call [OF st pd] hd [OF Cons] by blast
  have c: "R s ?s2" using stableD(2) [OF st a b] .
  have d: "R s (shift_handled h ?s2)" using stableD(2) [OF st c sh] .
  show ?thesis
    unfolding snd_rootKeydownListener_head [OF Cons]
    using c stableD(2) [OF st c ah] stableD(2) [OF st d ah]
    by (auto split: completion.splits)
qed

lemma in_set_tl: "x \<in> set (tl xs) \<Longrightarrow> x \<in> set xs"
  by (cases xs) auto

lemma grows_shift_handled: "grows s (shift_handled h s)"
  by (auto simp: grows_def dest: in_set_tl)

lemma grows_add_held: "grows s (add_held e s)"
  by (simp add: grows_def)

lemma grows_rootKeydownListener: "grows s (snd (rootKeydownListener env e s))"
  by (rule stable_rootKeydownListener [OF stable_grows])
    (simp_all add: grows_shift_handled grows_add_held)

lemma wf_add_held [simp]: "wf (add_held e s) = wf s"
  by (simp add: wf_def)

lemma wf_shift_handled: "wf s \<Longrightarrow> wf (shift_handled h s)"
proof -
  assume w: "wf s"
  note d = wfD [OF w]
  have sub: "set (tl (highPriorityQueue s)) \<subseteq> set (highPriorityQueue s)"
    by (auto dest: in_set_tl)
  show ?thesis
  proof (rule wfI)
    show "distinct (map fn_ref (listeners (shift_handled h s)))" using d(1) by simp
    show "distinct (map fn_ref (highPriorityQueue (shift_handled h s)))"
      using d(2) by (simp add: distinct_tl map_tl)
    show "fn_ref f < next_ref (shift_handled h s)" if "f \<in> set (listeners (shift_handled h s))" for f
      using that d(3) by simp
    show "fn_ref f < next_ref (shift_handled h s)"
      if "f \<in> set (highPriorityQueue (shift_handled h s))" for f
      using that d(4) sub by auto
    show "\<not> has_ref (fn_ref f) (listeners (shift_handled h s))"
      if "f \<in> set (highPriorityQueue (shift_handled h s))" for f
      using that d(5) sub by auto
    show "t < next_ref (shift_handled h s) \<and> fn_ref g < next_ref (shift_handled h s) \<and>
          \<not> has_ref t (listeners (shift_handled h s)) \<and>
          \<not> has_ref (fn_ref g) (listeners (shift_handled h s))"
      if "highPriorityTokenToHandler (shift_handled h s) t = Some g" for t g
    proof -
      have "highPriorityTokenToHandler s t = Some g"
        using that by (auto simp: shift_handled_def Let_def split: option.splits if_splits)
      then show ?thesis using d(6) [of t g] d(7) [of t g] d(8) [of t g] d(9) [of t g] by simp
    qed
  qed
qed

lemma wf_rootKeydownListener: "wf s \<Longrightarrow> wf (snd (rootKeydownListener env e s))"
  using stable_rootKeydownListener [OF stable_wf, of s e env]
  by (simp add: wf_shift_handled)

lemma wf_rootKeyupListener [simp]: "wf (rootKeyupListener e s) = wf s"
  by (simp add: wf_def)

lemma wf_run_cmd: "wf s \<Longrightarrow> wf (snd (run_cmd env c s))"
  using stable_run_cmd [OF stable_wf] by blast

lemma wf_step: "wf s \<Longrightarrow> wf (step x s)"
  by (cases x) (simp_all add: wf_rootKeydownListener wf_run_cmd)

lemma wf_run: "wf s \<Longrightarrow> wf (run ops s)"
  by (induction ops arbitrary: s) (simp_all add: wf_step)

lemma wf_new: "wf (new_KeyboardListenerAPI env cs mrt)"
  by (simp add: new_KeyboardListenerAPI_def wf_def)

lemma grows_rootKeyupListener: "grows s (rootKeyupListener e s)"
  by (simp add: grows_def)

lemma grows_step: "grows s (step x s)"
  by (cases x) (simp_all add: grows_rootKeydownListener grows_rootKeyupListener grows_run_cmd)

lemma grows_run: "grows s (run ops s)"
proof (induction ops arbitrary: s)
  case Nil
  show ?case by simp
next
  case (Cons x xs)
  show ?case using grows_trans [OF grows_step Cons.IH] by simp
qed

section \<open>Exclusive access, cancelling everything, comparing keys\<close>

lemma adds_rootKeydownListener_head:
  assumes "highPriorityQueue s = h # q"
  shows "adds (dispatch_effect {} {fn_ref h} (e_key e)) s (snd (rootKeydownListener env e s))"
proof (rule stable_rootKeydownListener [OF stable_adds])
  show "dispatch_effect {} {fn_ref h} (e_key e) ConsoleLog"
    and "dispatch_effect {} {fn_ref h} (e_key e) PreventDefault"
    by (simp_all add: dispatch_effect_def)
  show "dispatch_effect {} {fn_ref h} (e_key e) (CallbackInvoked (fn_ref h') (e_key e) t) \<and>
        dispatch_effect {} {fn_ref h} (e_key e) (HandlerInvoked (fn_ref h'))"
    if "highPriorityQueue s = h' # q'" for h' q' t
    using that assms by (simp add: dispatch_effect_def)
  show "dispatch_effect {} {fn_ref h} (e_key e) (CallbackInvoked (fn_ref l) (e_key e) t) \<and>
        dispatch_effect {} {fn_ref h} (e_key e) (ListenerInvoked (fn_ref l))"
    if "highPriorityQueue s = []" for l t
    using that assms by simp
  show "adds (dispatch_effect {} {fn_ref h} (e_key e)) s' (shift_handled h' s')" for h' s'
    by (simp add: adds_same_trace)
  show "adds (dispatch_effect {} {fn_ref h} (e_key e)) s' (add_held e s')" for s'
    by (simp add: adds_same_trace)
qed

text \<open>
  Claim C1. For every key-down event that arrives while the high-priority queue is
  non-empty, no normal listener is invoked: the dispatch adds no listener invocation to
  the trace, everything it adds is the invocation of the head handler, console output,
  \<open>preventDefault\<close> or a callback made by the head handler, and no closure other than
  the head handler calls its callback.
\<close>

theorem C1_exclusive_access:
  assumes "highPriorityQueue s \<noteq> []"
  shows "listener_invocations (trace (snd (rootKeydownListener env e s))) =
           listener_invocations (trace s) \<and>
         listener_invocations (emitted s (snd (rootKeydownListener env e s))) = [] \<and>
         trace (snd (rootKeydownListener env e s)) =
           trace s @ emitted s (snd (rootKeydownListener env e s)) \<and>
         (\<forall>x \<in> set (emitted s (snd (rootKeydownListener env e s))).
            dispatch_effect {} {fn_ref (hd (highPriorityQueue s))} (e_key e) x) \<and>
         (\<forall>r. r \<noteq> fn_ref (hd (highPriorityQueue s)) \<longrightarrow>
            callbacks_of r (trace (snd (rootKeydownListener env e s))) = callbacks_of r (trace s))"
proof -
  obtain h q where hq: "highPriorityQueue s = h # q"
    using assms by (cases "highPriorityQueue s") auto
  let ?s' = "snd (rootKeydownListener env e s)"
  have a: "adds (dispatch_effect {} {fn_ref h} (e_key e)) s ?s'"
    by (rule adds_rootKeydownListener_head [OF hq])
  have li: "listener_invocations (trace ?s') = listener_invocations (trace s)"
    by (rule adds_listener_invocations [OF a]) (simp add: dispatch_effect_def)
  have em: "trace ?s' = trace s @ emitted s ?s'"
    and al: "\<forall>x \<in> set (emitted s ?s'). dispatch_effect {} {fn_ref h} (e_key e) x"
    using adds_emitted [OF a] by blast+
  have "listener_invocations (trace ?s') =
          listener_invocations (trace s) @ listener_invocations (emitted s ?s')"
    using em by (metis listener_invocations_simps(2))
  with li have le: "listener_invocations (emitted s ?s') = []" by simp
  have cb: "callbacks_of r (trace ?s') = callbacks_of r (trace s)" if "r \<noteq> fn_ref h" for r
    by (rule adds_callbacks_of [OF a]) (use that in \<open>simp add: dispatch_effect_def\<close>)
  show ?thesis using li le em al cb hq by simp
qed

theorem C1_exclusive_access_witness:
  "highPriorityQueue normal_and_high \<noteq> [] \<and>
   map fn_ref (listeners normal_and_high) = [0] \<and>
   map fn_ref (highPriorityQueue normal_and_high) = [1] \<and>
   listener_invocations
     (emitted normal_and_high
        (snd (rootKeydownListener (env_at 300) (KeyboardEvent ''a'') normal_and_high))) = [] \<and>
   emitted normal_and_high
     (snd (rootKeydownListener (env_at 300) (KeyboardEvent ''a'') normal_and_high)) =
     [HandlerInvoked 1, PreventDefault, CallbackInvoked 1 ''a'' (Num 300)]"
proof -
  have h: "highPriorityQueue normal_and_high \<noteq> []"
    by (simp add: normal_and_high_def getKeyboardResponse_def Let_def high_options_def
        default_options_def)
  have a: "map fn_ref (listeners normal_and_high) = [0]" by code_simp
  have b: "map fn_ref (highPriorityQueue normal_and_high) = [1]" by code_simp
  have c: "emitted normal_and_high
     (snd (rootKeydownListener (env_at 300) (KeyboardEvent ''a'') normal_and_high)) =
     [HandlerInvoked 1, PreventDefault, CallbackInvoked 1 ''a'' (Num 300)]" by code_simp
  show ?thesis
    using C1_exclusive_access [OF h, of "env_at 300" "KeyboardEvent ''a''"] h a b c by simp
qed

text \<open>
  Claim C7. \<open>cancelAllKeyboardResponses\<close> empties the listener set, the high-priority
  queue and both cross-index maps and leaves the held keys as they were; a key-down
  dispatched right after it returns normally, adds nothing to the trace (so it invokes
  no callback) and only records the key as held.
\<close>

theorem C7_cancelAll:
  "listeners (cancelAllKeyboardResponses s) = [] \<and>
   highPriorityQueue (cancelAllKeyboardResponses s) = [] \<and>
   highPriorityTokenToHandler (cancelAllKeyboardResponses s) = Map.empty \<and>
   highPriorityHandlerToToken (cancelAllKeyboardResponses s) = Map.empty \<and>
   heldKeys (cancelAllKeyboardResponses s) = heldKeys s \<and>
   rootKeydownListener env e (cancelAllKeyboardResponses s) =
     (Return (), add_held e (cancelAllKeyboardResponses s)) \<and>
   trace (snd (rootKeydownListener env e (cancelAllKeyboardResponses s))) = trace s \<and>
   all_callbacks (emitted (cancelAllKeyboardResponses s)
      (snd (rootKeydownListener env e (cancelAllKeyboardResponses s)))) = []"
  by (simp add: rootKeydownListener_empty emitted_def)

theorem C7_cancelAll_witness:
  "listeners (cancelAllKeyboardResponses normal_and_high) = [] \<and>
   highPriorityQueue (cancelAllKeyboardResponses normal_and_high) = [] \<and>
   heldKeys (cancelAllKeyboardResponses (add_held (KeyboardEvent ''j'') normal_and_high)) = {''j''} \<and>
   trace (snd (rootKeydownListener (env_at 300) (KeyboardEvent ''a'')
            (cancelAllKeyboardResponses normal_and_high))) = []"
proof -
  have a: "heldKeys (add_held (KeyboardEvent ''j'') normal_and_high) = {''j''}" by code_simp
  have b: "trace normal_and_high = []" by code_simp
  show ?thesis
    using C7_cancelAll [of normal_and_high "env_at 300" "KeyboardEvent ''a''"]
      C7_cancelAll [of "add_held (KeyboardEvent ''j'') normal_and_high"] a b
    by simp
qed

lemma toLowerCase_A: "toLowerCase ''A'' = ''a''"
  by code_simp

lemma toLowerCase_a: "toLowerCase ''a'' = ''a''"
  by code_simp

text \<open>
  Claim C8. \<open>compareKeys\<close> returns true when both arguments are null, false when one is
  null and the other a string, and for two strings whether they are equal (after
  lower-casing unless the object is case sensitive), so \<open>compareKeys("A", "a")\<close> is true
  on an object built with the default and false on a case-sensitive one; when an
  argument is neither a string nor null it reports on the error console and returns
  \<open>undefined\<close>, without throwing.
\<close>

theorem C8_compareKeys:
  "compareKeys JNull JNull s = (Some True, s) \<and>
   compareKeys (JString a) JNull s = (Some False, s) \<and>
   compareKeys JNull (JString b) s = (Some False, s) \<and>
   compareKeys (JString a) (JString b) s =
     (Some (if areResponsesCaseSensitive s then a = b else toLowerCase a = toLowerCase b), s) \<and>
   ((\<not> is_string v \<and> v \<noteq> JNull) \<or> (\<not> is_string w \<and> w \<noteq> JNull) \<longrightarrow>
      compareKeys v w s = (None, emit ConsoleError s)) \<and>
   fst (compareKeys (JString ''A'') (JString ''a'') (new_KeyboardListenerAPI env None mrt)) = Some True \<and>
   fst (compareKeys (JString ''A'') (JString ''a'') (new_KeyboardListenerAPI env (Some True) mrt))
     = Some False"
  by (simp add: compareKeys_def is_string_def new_KeyboardListenerAPI_def toLowerCase_A
      toLowerCase_a)

theorem C8_compareKeys_witness:
  "\<not> is_string (JNumber 5) \<and> JNumber 5 \<noteq> JNull \<and>
   fst (compareKeys (JNumber 5) (JString ''a'') fresh_api) = None \<and>
   trace (snd (compareKeys (JNumber 5) (JString ''a'') fresh_api)) = [ConsoleError] \<and>
   fst (compareKeys (JString ''a'') JNull fresh_api) = Some False \<and>
   fst (compareKeys JNull JNull fresh_api) = Some True"
proof -
  have t: "trace fresh_api = []" by code_simp
  show ?thesis
    using C8_compareKeys [of fresh_api "''a''" "''a''" "JNumber 5" "JString ''a''"] t
    by (simp add: is_string_def)
qed

section \<open>The closures\<close>

lemma listener_call_early:
  "compute_rt env (fn_env l) = Return rt \<Longrightarrow> num_less rt (Num (minimum_valid_rt (fn_env l))) \<Longrightarrow>
   listener_call env e l s = (Return (), s)"
  by (simp add: listener_call_def)

lemma listener_call_invalid:
  "compute_rt env (fn_env l) = Return rt \<Longrightarrow>
   \<not> isResponseValid s (valid_responses (fn_env l)) (allow_held_key (fn_env l))
        (toLowerCaseIfInsensitive s (e_key e)) \<Longrightarrow>
   listener_call env e l s = (Return (), s)"
  by (simp add: listener_call_def Let_def)

lemma listener_call_throw:
  "compute_rt env (fn_env l) = Throw err \<Longrightarrow> listener_call env e l s = (Throw err, s)"
  by (simp add: listener_call_def)

lemma listener_call_matched:
  "compute_rt env (fn_env l) = Return rt \<Longrightarrow> \<not> num_less rt (Num (minimum_valid_rt (fn_env l))) \<Longrightarrow>
   isResponseValid s (valid_responses (fn_env l)) (allow_held_key (fn_env l))
        (toLowerCaseIfInsensitive s (e_key e)) \<Longrightarrow>
   listener_call env e l s =
     invoke_callback env (fn_ref l) (callback_function (fn_env l)) (e_key e) rt
       (if persist (fn_env l) \<noteq> Some True
        then cancelKeyboardResponse (fn_ref l) (emit PreventDefault s)
        else emit PreventDefault s)"
  by (simp add: listener_call_def Let_def)

lemma handler_call_early:
  "compute_rt env (fn_env h) = Return rt \<Longrightarrow> num_less rt (Num (minimum_valid_rt (fn_env h))) \<Longrightarrow>
   handler_call env e h s = (Return False, s)"
  by (simp add: handler_call_def)

lemma handler_call_invalid:
  "compute_rt env (fn_env h) = Return rt \<Longrightarrow>
   \<not> isResponseValid s (valid_responses (fn_env h)) (allow_held_key (fn_env h))
        (toLowerCaseIfInsensitive s (e_key e)) \<Longrightarrow>
   handler_call env e h s = (Return False, s)"
  by (simp add: handler_call_def Let_def)

lemma handler_call_throw:
  "compute_rt env (fn_env h) = Throw err \<Longrightarrow> handler_call env e h s = (Throw err, s)"
  by (simp add: handler_call_def)

lemma handler_call_matched:
  "compute_rt env (fn_env h) = Return rt \<Longrightarrow> \<not> num_less rt (Num (minimum_valid_rt (fn_env h))) \<Longrightarrow>
   isResponseValid s (valid_responses (fn_env h)) (allow_held_key (fn_env h))
        (toLowerCaseIfInsensitive s (e_key e)) \<Longrightarrow>
   handler_call env e h s =
     (case invoke_callback env (fn_ref h) (callback_function (fn_env h)) (e_key e) rt
             (emit PreventDefault s) of
        (Throw err, s') \<Rightarrow> (Throw err, s')
      | (Return u, s') \<Rightarrow> (Return True, s'))"
  by (simp add: handler_call_def Let_def)

lemma isResponseValid_held:
  "k \<in> heldKeys s \<Longrightarrow> \<not> isResponseValid s vr False k"
  by (simp add: isResponseValid_def)

lemma isResponseValid_not_held:
  "k \<notin> heldKeys s \<Longrightarrow> isResponseValid s vr False k = isResponseValid s vr True k"
  by (simp add: isResponseValid_def)

lemma listener_call_held:
  assumes "\<not> allow_held_key (fn_env l)" and "toLowerCaseIfInsensitive s (e_key e) \<in> heldKeys s"
  shows "snd (listener_call env e l s) = s"
proof (cases "compute_rt env (fn_env l)")
  case (Return rt)
  then show ?thesis
    using listener_call_invalid [OF Return, where s = s and e = e] isResponseValid_held [OF assms(2)] assms(1)
    by simp
next
  case (Throw err)
  then show ?thesis by (simp add: listener_call_throw)
qed

lemma handler_call_held:
  assumes "\<not> allow_held_key (fn_env h)" and "toLowerCaseIfInsensitive s (e_key e) \<in> heldKeys s"
  shows "snd (handler_call env e h s) = s \<and> fst (handler_call env e h s) \<noteq> Return True"
proof (cases "compute_rt env (fn_env h)")
  case (Return rt)
  then show ?thesis
    using handler_call_invalid [OF Return, where s = s and e = e] isResponseValid_held [OF assms(2)] assms(1)
    by simp
next
  case (Throw err)
  then show ?thesis by (simp add: handler_call_throw)
qed

section \<open>Held keys and configuration during a dispatch\<close>

lemma stable_config:
  "stable (\<lambda>x. True)
     (\<lambda>a b. heldKeys b = heldKeys a \<and> areResponsesCaseSensitive b = areResponsesCaseSensitive a)"
  unfolding stable_def by simp

lemma invoke_callback_frame [simp]:
  "heldKeys (snd (invoke_callback env r cb k t s)) = heldKeys s"
  "areResponsesCaseSensitive (snd (invoke_callback env r cb k t s)) = areResponsesCaseSensitive s"
  using stable_invoke_callback [OF stable_config, where r = r and k = k and t = t and s = s and env = env and cb = cb] by simp_all

lemma listener_call_frame [simp]:
  "heldKeys (snd (listener_call env e l s)) = heldKeys s"
  "areResponsesCaseSensitive (snd (listener_call env e l s)) = areResponsesCaseSensitive s"
  using stable_listener_call [OF stable_config, where l = l and e = e and s = s and env = env] by simp_all

lemma handler_call_frame [simp]:
  "heldKeys (snd (handler_call env e h s)) = heldKeys s"
  "areResponsesCaseSensitive (snd (handler_call env e h s)) = areResponsesCaseSensitive s"
  using stable_handler_call [OF stable_config, where h = h and e = e and s = s and env = env] by simp_all

lemma call_listeners_frame [simp]:
  "heldKeys (snd (call_listeners env e ls s)) = heldKeys s"
  "areResponsesCaseSensitive (snd (call_listeners env e ls s)) = areResponsesCaseSensitive s"
  using stable_call_listeners [OF stable_config, where ls = ls and e = e and s = s and env = env] by simp_all

lemma toLowerCaseIfInsensitive_cong:
  "areResponsesCaseSensitive s' = areResponsesCaseSensitive s \<Longrightarrow>
   toLowerCaseIfInsensitive s' k = toLowerCaseIfInsensitive s k"
  by (simp add: toLowerCaseIfInsensitive_def)

lemma rootKeydownListener_heldKeys:
  "heldKeys (snd (rootKeydownListener env e s)) =
     (if fst (rootKeydownListener env e s) = Return ()
      then insert (toLowerCaseIfInsensitive s (e_key e)) (heldKeys s)
      else heldKeys s)"
proof (cases "highPriorityQueue s")
  case Nil
  show ?thesis
    by (cases "call_listeners env e (listeners s) s")
      (auto simp: rootKeydownListener_empty [OF Nil] toLowerCaseIfInsensitive_def
         split: completion.splits
         dest: arg_cong [where f = "\<lambda>p. heldKeys (snd p)"]
               arg_cong [where f = "\<lambda>p. areResponsesCaseSensitive (snd p)"])
next
  case (Cons h q)
  show ?thesis
    by (cases "handler_call env e h (emit (HandlerInvoked (fn_ref h)) s)")
      (auto simp: rootKeydownListener_head [OF Cons] toLowerCaseIfInsensitive_def
         split: completion.splits
         dest: arg_cong [where f = "\<lambda>p. heldKeys (snd p)"]
               arg_cong [where f = "\<lambda>p. areResponsesCaseSensitive (snd p)"])
qed

lemma rootKeydownListener_config [simp]:
  "areResponsesCaseSensitive (snd (rootKeydownListener env e s)) = areResponsesCaseSensitive s"
  using grows_rootKeydownListener [where s = s and env = env and e = e] by (simp add: grows_def)

section \<open>Callbacks in the trace\<close>

lemma run_cmds_callbacks_of [simp]:
  "callbacks_of r (trace (snd (run_cmds env cs s))) = callbacks_of r (trace s)"
proof -
  obtain xs where xs: "trace (snd (run_cmds env cs s)) = trace s @ xs" "set xs \<subseteq> {ConsoleLog}"
    using run_cmds_trace by blast
  have "callbacks_of r xs = []"
    unfolding callbacks_of_def using xs(2) by (auto simp: filter_empty_conv)
  with xs(1) show ?thesis by simp
qed

lemma invoke_callback_callbacks_of:
  "callbacks_of r' (trace (snd (invoke_callback env r cb k t s))) =
     callbacks_of r' (trace s) @ (if r = r' then [CallbackInvoked r k t] else [])"
  by (cases cb) (simp add: invoke_callback_def)

lemma adds_not_by:
  "stable (\<lambda>x. \<forall>k t. x \<noteq> CallbackInvoked r k t) (adds (\<lambda>x. \<forall>k t. x \<noteq> CallbackInvoked r k t))"
  by (rule stable_adds) simp

lemma listener_call_other:
  assumes "fn_ref l \<noteq> r"
  shows "callbacks_of r (trace (snd (listener_call env e l s))) = callbacks_of r (trace s)"
proof -
  have "adds (\<lambda>x. \<forall>k t. x \<noteq> CallbackInvoked r k t) s (snd (listener_call env e l s))"
    by (rule stable_listener_call [OF adds_not_by]) (use assms in auto)
  then show ?thesis by (rule adds_callbacks_of) simp
qed

lemma handler_call_other:
  assumes "fn_ref h \<noteq> r"
  shows "callbacks_of r (trace (snd (handler_call env e h s))) = callbacks_of r (trace s)"
proof -
  have "adds (\<lambda>x. \<forall>k t. x \<noteq> CallbackInvoked r k t) s (snd (handler_call env e h s))"
    by (rule stable_handler_call [OF adds_not_by]) (use assms in auto)
  then show ?thesis by (rule adds_callbacks_of) simp
qed

text \<open>A loop over listeners among which those with reference \<open>r\<close> do nothing (whatever
  the other listeners did before, short of changing the held keys or the configuration,
  which they cannot) adds no callback of \<open>r\<close>.\<close>

lemma call_listeners_silent_ref:
  assumes "\<And>g s'. g \<in> set ls \<Longrightarrow> fn_ref g = r \<Longrightarrow> heldKeys s' = heldKeys s \<Longrightarrow>
             areResponsesCaseSensitive s' = areResponsesCaseSensitive s \<Longrightarrow>
             snd (listener_call env e g s') = s'"
  shows "callbacks_of r (trace (snd (call_listeners env e ls s))) = callbacks_of r (trace s)"
  using assms
proof (induction ls arbitrary: s)
  case Nil
  show ?case by simp
next
  case (Cons l ls)
  let ?s1 = "emit (ListenerInvoked (fn_ref l)) s"
  let ?s2 = "snd (listener_call env e l ?s1)"
  have a: "callbacks_of r (trace ?s2) = callbacks_of r (trace s)"
  proof (cases "fn_ref l = r")
    case True
    have "?s2 = ?s1" using Cons.prems [where g = l and s' = "?s1"] True by simp
    then show ?thesis by simp
  next
    case False
    then show ?thesis using listener_call_other [where l = l and r = r and env = env and e = e and s = "?s1"] by simp
  qed
  have b: "callbacks_of r (trace (snd (call_listeners env e ls ?s2))) = callbacks_of r (trace ?s2)"
  proof (rule Cons.IH)
    fix g and s' :: KeyboardListenerAPI
    assume "g \<in> set ls" "fn_ref g = r" "heldKeys s' = heldKeys ?s2"
      "areResponsesCaseSensitive s' = areResponsesCaseSensitive ?s2"
    then show "snd (listener_call env e g s') = s'"
      using Cons.prems [where g = g and s' = s'] by simp
  qed
  show ?case
    unfolding snd_call_listeners_Cons using a b by (auto split: completion.splits)
qed

lemma same_ref_same_fn:
  assumes "distinct (map fn_ref fs)" and "f \<in> set fs" and "g \<in> set fs" and "fn_ref g = fn_ref f"
  shows "g = f"
  using assms by (meson distinct_map inj_onD)

lemma splice_ref_position:
  "\<not> has_ref r xs \<Longrightarrow> fn_ref f = r \<Longrightarrow> splice_ref r (xs @ f # ys) = xs @ ys"
  by (induction xs) auto

text \<open>
  Claim C5. When the reaction time a listener computes for a key-down is strictly below
  its \<open>minimum_valid_rt\<close>, the event is ignored: the normal listener closure and the
  high-priority handler closure both return with the state unchanged (no callback, every
  registration as it was, the handler reporting "not consumed"); the dispatch to a
  high-priority head leaves queue and maps alone and only notes the invocation and the
  held key; the dispatch to the normal listeners adds no callback of that listener.
\<close>

theorem C5_minimum_rt_gate:
  assumes "compute_rt env (fn_env f) = Return rt"
    and "num_less rt (Num (minimum_valid_rt (fn_env f)))"
  shows "listener_call env e f s = (Return (), s) \<and>
         handler_call env e f s = (Return False, s) \<and>
         (highPriorityQueue s = f # q \<longrightarrow>
            rootKeydownListener env e s =
              (Return (), add_held e (emit (HandlerInvoked (fn_ref f)) s))) \<and>
         (highPriorityQueue s = [] \<and> f \<in> set (listeners s) \<and>
          distinct (map fn_ref (listeners s)) \<longrightarrow>
            callbacks_of (fn_ref f) (trace (snd (rootKeydownListener env e s))) =
              callbacks_of (fn_ref f) (trace s))"
proof -
  have a: "listener_call env e f s' = (Return (), s')" for s'
    using listener_call_early [OF assms] .
  have b: "handler_call env e f s' = (Return False, s')" for s'
    using handler_call_early [OF assms] .
  have c: "rootKeydownListener env e s = (Return (), add_held e (emit (HandlerInvoked (fn_ref f)) s))"
    if "highPriorityQueue s = f # q"
    by (simp add: rootKeydownListener_head [OF that] b)
  have d: "callbacks_of (fn_ref f) (trace (snd (rootKeydownListener env e s))) =
              callbacks_of (fn_ref f) (trace s)"
    if q: "highPriorityQueue s = []" and m: "f \<in> set (listeners s)"
      and di: "distinct (map fn_ref (listeners s))"
  proof -
    have "callbacks_of (fn_ref f) (trace (snd (call_listeners env e (listeners s) s))) =
            callbacks_of (fn_ref f) (trace s)"
    proof (rule call_listeners_silent_ref)
      fix g and s' :: KeyboardListenerAPI
      assume "g \<in> set (listeners s)" "fn_ref g = fn_ref f"
      then have "g = f" using same_ref_same_fn [OF di m] by blast
      then show "snd (listener_call env e g s') = s'" using a by simp
    qed
    then show ?thesis
      unfolding snd_rootKeydownListener_empty [OF q] by (auto split: completion.splits)
  qed
  show ?thesis using a b c d by blast
qed

theorem C5_minimum_rt_gate_witness:
  "compute_rt (env_at 100) (fn_env (hd (listeners gated_normal))) = Return (Num 100) \<and>
   num_less (Num 100) (Num (minimum_valid_rt (fn_env (hd (listeners gated_normal))))) \<and>
   highPriorityQueue gated_normal = [] \<and>
   map fn_ref (listeners gated_normal) = [0] \<and>
   fst (listener_call (env_at 100) (KeyboardEvent ''a'') (hd (listeners gated_normal)) gated_normal)
     = Return () \<and>
   callbacks_of 0 (trace
      (snd (rootKeydownListener (env_at 100) (KeyboardEvent ''a'') gated_normal))) = [] \<and>
   map fn_ref (listeners
      (snd (rootKeydownListener (env_at 100) (KeyboardEvent ''a'') gated_normal))) = [0] \<and>
   map fn_ref (highPriorityQueue
      (snd (rootKeydownListener (env_at 100) (KeyboardEvent ''a'') gated_high))) = [1] \<and>
   all_callbacks (trace
      (snd (rootKeydownListener (env_at 100) (KeyboardEvent ''a'') gated_high))) = []"
proof -
  have a: "compute_rt (env_at 100) (fn_env (hd (listeners gated_normal))) = Return (Num 100)"
    by code_simp
  have b: "num_less (Num 100) (Num (minimum_valid_rt (fn_env (hd (listeners gated_normal)))))"
    by code_simp
  have c: "highPriorityQueue gated_normal = []"
    by (simp add: gated_normal_def getKeyboardResponse_def Let_def gated_options_def
        fresh_api_def new_KeyboardListenerAPI_def)
  have d: "map fn_ref (listeners gated_normal) = [0]" by code_simp
  have e: "map fn_ref (listeners
      (snd (rootKeydownListener (env_at 100) (KeyboardEvent ''a'') gated_normal))) = [0]"
    by code_simp
  have f: "map fn_ref (highPriorityQueue
      (snd (rootKeydownListener (env_at 100) (KeyboardEvent ''a'') gated_high))) = [1]"
    by code_simp
  have g: "all_callbacks (trace
      (snd (rootKeydownListener (env_at 100) (KeyboardEvent ''a'') gated_high))) = []"
    by code_simp
  have h: "callbacks_of 0 (trace gated_normal) = []" by code_simp
  have i: "hd (listeners gated_normal) \<in> set (listeners gated_normal)"
    using d by (cases "listeners gated_normal") auto
  have j: "distinct (map fn_ref (listeners gated_normal))" using d by simp
  have k: "fn_ref (hd (listeners gated_normal)) = 0"
    using d by (cases "listeners gated_normal") auto
  show ?thesis
    using C5_minimum_rt_gate [OF a b, of "KeyboardEvent ''a''" gated_normal]
      a b c d e f g h i j k
    by simp
qed

text \<open>
  Claim C6. \<open>cancelKeyboardResponse\<close> routes by the kind of the handle. A registered
  normal listener is removed from the listener set and nothing else changes. Otherwise a
  high-priority token has its handler spliced out of the queue, wherever it stands, and
  both map entries deleted, and nothing else changes. A handle that is neither leaves
  the state as it is. On a well-formed state cancelling twice is cancelling once.
\<close>

theorem C6_cancel_routes:
  "(has_ref h (listeners s) \<longrightarrow>
      cancelKeyboardResponse h s = s\<lparr>listeners := delete_ref h (listeners s)\<rparr> \<and>
      \<not> has_ref h (listeners (cancelKeyboardResponse h s))) \<and>
   (\<not> has_ref h (listeners s) \<and> highPriorityTokenToHandler s h = Some g \<longrightarrow>
      cancelKeyboardResponse h s =
        s\<lparr>highPriorityQueue := splice_ref (fn_ref g) (highPriorityQueue s),
          highPriorityTokenToHandler := (highPriorityTokenToHandler s)(h := None),
          highPriorityHandlerToToken := (highPriorityHandlerToToken s)(fn_ref g := None)\<rparr> \<and>
      highPriorityTokenToHandler (cancelKeyboardResponse h s) h = None \<and>
      highPriorityHandlerToToken (cancelKeyboardResponse h s) (fn_ref g) = None \<and>
      (\<forall>xs f ys. highPriorityQueue s = xs @ f # ys \<and> fn_ref f = fn_ref g \<and>
          \<not> has_ref (fn_ref g) xs \<longrightarrow>
          highPriorityQueue (cancelKeyboardResponse h s) = xs @ ys) \<and>
      (distinct (map fn_ref (highPriorityQueue s)) \<longrightarrow>
          \<not> has_ref (fn_ref g) (highPriorityQueue (cancelKeyboardResponse h s)))) \<and>
   (\<not> has_ref h (listeners s) \<and> highPriorityTokenToHandler s h = None \<longrightarrow>
      cancelKeyboardResponse h s = s) \<and>
   (wf s \<longrightarrow>
      cancelKeyboardResponse h (cancelKeyboardResponse h s) = cancelKeyboardResponse h s)"
proof -
  have a: "cancelKeyboardResponse h s = s\<lparr>listeners := delete_ref h (listeners s)\<rparr> \<and>
      \<not> has_ref h (listeners (cancelKeyboardResponse h s))" if "has_ref h (listeners s)"
    using that by (simp add: cancelKeyboardResponse_def)
  have b: "cancelKeyboardResponse h s =
        s\<lparr>highPriorityQueue := splice_ref (fn_ref g) (highPriorityQueue s),
          highPriorityTokenToHandler := (highPriorityTokenToHandler s)(h := None),
          highPriorityHandlerToToken := (highPriorityHandlerToToken s)(fn_ref g := None)\<rparr>"
    if "\<not> has_ref h (listeners s)" "highPriorityTokenToHandler s h = Some g"
    using that by (simp add: cancelKeyboardResponse_def)
  have c: "cancelKeyboardResponse h s' = s'"
    if "\<not> has_ref h (listeners s')" "highPriorityTokenToHandler s' h = None" for s'
    using that by (simp add: cancelKeyboardResponse_def)
  have d: "cancelKeyboardResponse h (cancelKeyboardResponse h s) = cancelKeyboardResponse h s"
    if w: "wf s"
  proof (cases "has_ref h (listeners s)")
    case True
    have "highPriorityTokenToHandler s h = None"
      using wfD(8) [OF w, of h] True by (cases "highPriorityTokenToHandler s h") auto
    then show ?thesis using a [OF True] by (intro c) simp_all
  next
    case False
    show ?thesis
    proof (cases "highPriorityTokenToHandler s h")
      case None
      then show ?thesis using c [OF False None] by simp
    next
      case (Some g')
      have "cancelKeyboardResponse h s =
        s\<lparr>highPriorityQueue := splice_ref (fn_ref g') (highPriorityQueue s),
          highPriorityTokenToHandler := (highPriorityTokenToHandler s)(h := None),
          highPriorityHandlerToToken := (highPriorityHandlerToToken s)(fn_ref g' := None)\<rparr>"
        using False Some by (simp add: cancelKeyboardResponse_def)
      then show ?thesis using False by (intro c) simp_all
    qed
  qed
  show ?thesis
    using a b c [of s] d
    by (auto simp: splice_ref_position splice_ref_distinct)
qed

theorem C6_cancel_routes_witness:
  "wf normal_and_high \<and>
   has_ref 0 (listeners normal_and_high) \<and>
   \<not> has_ref 2 (listeners normal_and_high) \<and>
   map fn_ref (listeners (cancelKeyboardResponse 0 normal_and_high)) = [] \<and>
   map fn_ref (highPriorityQueue (cancelKeyboardResponse 0 normal_and_high)) = [1] \<and>
   map fn_ref (listeners (cancelKeyboardResponse 2 normal_and_high)) = [0] \<and>
   map fn_ref (highPriorityQueue (cancelKeyboardResponse 2 normal_and_high)) = [] \<and>
   highPriorityTokenToHandler (cancelKeyboardResponse 2 normal_and_high) 2 = None \<and>
   highPriorityHandlerToToken (cancelKeyboardResponse 2 normal_and_high) 1 = None \<and>
   cancelKeyboardResponse 7 normal_and_high = normal_and_high \<and>
   cancelKeyboardResponse 0 (cancelKeyboardResponse 0 normal_and_high) =
     cancelKeyboardResponse 0 normal_and_high"
proof -
  have w: "wf normal_and_high"
    unfolding normal_and_high_def fresh_api_def
    by (intro wf_getKeyboardResponse wf_new)
  have a: "has_ref 0 (listeners normal_and_high)" by code_simp
  have b: "\<not> has_ref 2 (listeners normal_and_high)" by code_simp
  have c: "\<not> has_ref 7 (listeners normal_and_high)" by code_simp
  have d: "highPriorityTokenToHandler normal_and_high 7 = None"
    by (simp add: normal_and_high_def getKeyboardResponse_def Let_def high_options_def
        default_options_def fresh_api_def new_KeyboardListenerAPI_def)
  have e: "map fn_ref (listeners (cancelKeyboardResponse 0 normal_and_high)) = []" by code_simp
  have f: "map fn_ref (highPriorityQueue (cancelKeyboardResponse 0 normal_and_high)) = [1]"
    by code_simp
  have g: "map fn_ref (listeners (cancelKeyboardResponse 2 normal_and_high)) = [0]" by code_simp
  have h: "map fn_ref (highPriorityQueue (cancelKeyboardResponse 2 normal_and_high)) = []"
    by code_simp
  have i: "map_option fn_ref (highPriorityTokenToHandler (cancelKeyboardResponse 2 normal_and_high) 2)
     = None" by code_simp
  have j: "highPriorityHandlerToToken (cancelKeyboardResponse 2 normal_and_high) 1 = None"
    by code_simp
  have i': "highPriorityTokenToHandler (cancelKeyboardResponse 2 normal_and_high) 2 = None"
    using i by simp
  have noop: "cancelKeyboardResponse 7 normal_and_high = normal_and_high"
    using C6_cancel_routes [of 7 normal_and_high] c d by blast
  have idem: "cancelKeyboardResponse 0 (cancelKeyboardResponse 0 normal_and_high) =
     cancelKeyboardResponse 0 normal_and_high"
    using C6_cancel_routes [of 0 normal_and_high] w by blast
  show ?thesis
    using w a b e f g h i' j noop idem by blast
qed

lemma adds_raw_key:
  "adds (\<lambda>x. \<forall>w k t. x = CallbackInvoked w k t \<longrightarrow> k = e_key e) s
     (snd (rootKeydownListener env e s))"
  by (rule stable_rootKeydownListener [OF stable_adds]) (simp_all add: adds_same_trace)

lemma callback_keys_subset:
  "\<forall>x \<in> set xs. \<forall>w k t. x = CallbackInvoked w k t \<longrightarrow> k = key \<Longrightarrow>
   set (callback_keys xs) \<subseteq> {key}"
  by (auto simp: callback_keys_def split: effect.splits)

lemma getKeyboardResponse_new_closure:
  assumes "\<not> areResponsesCaseSensitive s" and "opt_valid_responses opts = Some (Keys ks)"
    and "g \<in> set (listeners (snd (getKeyboardResponse env opts s))) \<union>
             set (highPriorityQueue (snd (getKeyboardResponse env opts s)))"
    and "g \<notin> set (listeners s) \<union> set (highPriorityQueue s)"
  shows "valid_responses (fn_env g) = Keys (map toLowerCase ks)"
  using assms
  by (auto simp: getKeyboardResponse_def Let_def add_fn_def split: if_splits)

text \<open>
  Claim C9. The callback receives the raw key of the event: every callback invocation a
  key-down dispatch adds to the trace carries \<open>e.key\<close> as delivered. On a
  case-insensitive object the rest works on the lower-cased key: the key added to the
  held keys, the key the listener and handler closures validate (a callback is made
  exactly when \<open>isResponseValid\<close> accepts the lower-cased key, and it is given the raw
  one), and the valid responses a registration stores.
\<close>

theorem C9_callback_gets_raw_key:
  "set (callback_keys (emitted s (snd (rootKeydownListener env e s)))) \<subseteq> {e_key e} \<and>
   (\<not> areResponsesCaseSensitive s \<longrightarrow>
      (fst (rootKeydownListener env e s) = Return () \<longrightarrow>
         heldKeys (snd (rootKeydownListener env e s)) = insert (toLowerCase (e_key e)) (heldKeys s)) \<and>
      (compute_rt env (fn_env f) = Return rt \<and>
       \<not> num_less rt (Num (minimum_valid_rt (fn_env f))) \<longrightarrow>
         callbacks_of (fn_ref f) (trace (snd (listener_call env e f s))) =
           callbacks_of (fn_ref f) (trace s) @
           (if isResponseValid s (valid_responses (fn_env f)) (allow_held_key (fn_env f))
                 (toLowerCase (e_key e))
            then [CallbackInvoked (fn_ref f) (e_key e) rt] else []) \<and>
         callbacks_of (fn_ref f) (trace (snd (handler_call env e f s))) =
           callbacks_of (fn_ref f) (trace s) @
           (if isResponseValid s (valid_responses (fn_env f)) (allow_held_key (fn_env f))
                 (toLowerCase (e_key e))
            then [CallbackInvoked (fn_ref f) (e_key e) rt] else [])) \<and>
      (opt_valid_responses opts = Some (Keys ks) \<longrightarrow>
         (\<forall>g \<in> set (listeners (snd (getKeyboardResponse env opts s))) \<union>
                set (highPriorityQueue (snd (getKeyboardResponse env opts s))).
            g \<notin> set (listeners s) \<union> set (highPriorityQueue s) \<longrightarrow>
            valid_responses (fn_env g) = Keys (map toLowerCase ks))))"
proof -
  let ?s' = "snd (rootKeydownListener env e s)"
  have "\<forall>x \<in> set (emitted s ?s'). \<forall>w k t. x = CallbackInvoked w k t \<longrightarrow> k = e_key e"
    using adds_emitted [OF adds_raw_key] by blast
  then have a: "set (callback_keys (emitted s ?s')) \<subseteq> {e_key e}"
    by (rule callback_keys_subset)
  have b: "heldKeys ?s' = insert (toLowerCase (e_key e)) (heldKeys s)"
    if "\<not> areResponsesCaseSensitive s" "fst (rootKeydownListener env e s) = Return ()"
    using that by (simp add: rootKeydownListener_heldKeys toLowerCaseIfInsensitive_def)
  have c: "callbacks_of (fn_ref f) (trace (snd (listener_call env e f s))) =
           callbacks_of (fn_ref f) (trace s) @
           (if isResponseValid s (valid_responses (fn_env f)) (allow_held_key (fn_env f))
                 (toLowerCase (e_key e))
            then [CallbackInvoked (fn_ref f) (e_key e) rt] else [])"
    if i: "\<not> areResponsesCaseSensitive s" and r: "compute_rt env (fn_env f) = Return rt"
      and m: "\<not> num_less rt (Num (minimum_valid_rt (fn_env f)))"
  proof (cases "isResponseValid s (valid_responses (fn_env f)) (allow_held_key (fn_env f))
                 (toLowerCase (e_key e))")
    case True
    then have v: "isResponseValid s (valid_responses (fn_env f)) (allow_held_key (fn_env f))
                 (toLowerCaseIfInsensitive s (e_key e))"
      using i by (simp add: toLowerCaseIfInsensitive_def)
    show ?thesis
      unfolding listener_call_matched [OF r m v]
      using True by (simp add: invoke_callback_callbacks_of)
  next
    case False
    then have v: "\<not> isResponseValid s (valid_responses (fn_env f)) (allow_held_key (fn_env f))
                 (toLowerCaseIfInsensitive s (e_key e))"
      using i by (simp add: toLowerCaseIfInsensitive_def)
    show ?thesis
      unfolding listener_call_invalid [OF r v] using False by simp
  qed
  have d: "callbacks_of (fn_ref f) (trace (snd (handler_call env e f s))) =
           callbacks_of (fn_ref f) (trace s) @
           (if isResponseValid s (valid_responses (fn_env f)) (allow_held_key (fn_env f))
                 (toLowerCase (e_key e))
            then [CallbackInvoked (fn_ref f) (e_key e) rt] else [])"
    if i: "\<not> areResponsesCaseSensitive s" and r: "compute_rt env (fn_env f) = Return rt"
      and m: "\<not> num_less rt (Num (minimum_valid_rt (fn_env f)))"
  proof (cases "isResponseValid s (valid_responses (fn_env f)) (allow_held_key (fn_env f))
                 (toLowerCase (e_key e))")
    case True
    then have v: "isResponseValid s (valid_responses (fn_env f)) (allow_held_key (fn_env f))
                 (toLowerCaseIfInsensitive s (e_key e))"
      using i by (simp add: toLowerCaseIfInsensitive_def)
    have "snd (handler_call env e f s) =
       snd (invoke_callback env (fn_ref f) (callback_function (fn_env f)) (e_key e) rt
              (emit PreventDefault s))"
      unfolding handler_call_matched [OF r m v]
      by (auto split: prod.splits completion.splits)
    then show ?thesis
      using True by (simp add: invoke_callback_callbacks_of)
  next
    case False
    then have v: "\<not> isResponseValid s (valid_responses (fn_env f)) (allow_held_key (fn_env f))
                 (toLowerCaseIfInsensitive s (e_key e))"
      using i by (simp add: toLowerCaseIfInsensitive_def)
    show ?thesis
      unfolding handler_call_invalid [OF r v] using False by simp
  qed
  show ?thesis
    using a b c d getKeyboardResponse_new_closure [of s opts ks _ env] by blast
qed

theorem C9_callback_gets_raw_key_witness:
  "\<not> areResponsesCaseSensitive letter_normal \<and>
   map (\<lambda>g. valid_responses (fn_env g)) (listeners letter_normal) = [Keys [''a'']] \<and>
   map (\<lambda>g. valid_responses (fn_env g)) (highPriorityQueue letter_high) = [Keys [''a'']] \<and>
   fst (rootKeydownListener (env_at 250) (KeyboardEvent ''A'') letter_normal) = Return () \<and>
   heldKeys (snd (rootKeydownListener (env_at 250) (KeyboardEvent ''A'') letter_normal)) = {''a''} \<and>
   trace (snd (rootKeydownListener (env_at 250) (KeyboardEvent ''A'') letter_normal)) =
     [ListenerInvoked 0, PreventDefault, CallbackInvoked 0 ''A'' (Num 250)] \<and>
   trace (snd (rootKeydownListener (env_at 250) (KeyboardEvent ''A'') letter_high)) =
     [HandlerInvoked 0, PreventDefault, CallbackInvoked 0 ''A'' (Num 250)] \<and>
   set (callback_keys (emitted letter_normal
     (snd (rootKeydownListener (env_at 250) (KeyboardEvent ''A'') letter_normal)))) \<subseteq> {''A''}"
proof -
  have a: "\<not> areResponsesCaseSensitive letter_normal" by code_simp
  have b: "map (\<lambda>g. valid_responses (fn_env g)) (listeners letter_normal) = [Keys [''a'']]"
    by code_simp
  have c: "map (\<lambda>g. valid_responses (fn_env g)) (highPriorityQueue letter_high) = [Keys [''a'']]"
    by code_simp
  have d: "fst (rootKeydownListener (env_at 250) (KeyboardEvent ''A'') letter_normal) = Return ()"
    by code_simp
  have e: "heldKeys letter_normal = {}" by code_simp
  have f: "trace (snd (rootKeydownListener (env_at 250) (KeyboardEvent ''A'') letter_normal)) =
     [ListenerInvoked 0, PreventDefault, CallbackInvoked 0 ''A'' (Num 250)]" by code_simp
  have g: "trace (snd (rootKeydownListener (env_at 250) (KeyboardEvent ''A'') letter_high)) =
     [HandlerInvoked 0, PreventDefault, CallbackInvoked 0 ''A'' (Num 250)]" by code_simp
  have h: "toLowerCase ''A'' = ''a''" by code_simp
  show ?thesis
    using C9_callback_gets_raw_key [of letter_normal "env_at 250" "KeyboardEvent ''A''"]
      a b c d e f g h
    by simp
qed

section \<open>One-shot listeners\<close>

lemma grows_next_ref: "grows s s' \<Longrightarrow> r < next_ref s \<Longrightarrow> r < next_ref s'"
  by (simp add: grows_def)

lemma grows_old_listener:
  "grows s s' \<Longrightarrow> g \<in> set (listeners s') \<Longrightarrow> fn_ref g < next_ref s \<Longrightarrow> g \<in> set (listeners s)"
  by (simp add: grows_def)

lemma grows_old_handler:
  "grows s s' \<Longrightarrow> g \<in> set (highPriorityQueue s') \<Longrightarrow> fn_ref g < next_ref s \<Longrightarrow>
   g \<in> set (highPriorityQueue s)"
  by (simp add: grows_def)

lemma grows_has_ref_listeners:
  "grows s s' \<Longrightarrow> r < next_ref s \<Longrightarrow> has_ref r (listeners s') \<Longrightarrow> has_ref r (listeners s)"
  unfolding has_ref_def using grows_old_listener by blast

lemma grows_has_ref_queue:
  "grows s s' \<Longrightarrow> r < next_ref s \<Longrightarrow> has_ref r (highPriorityQueue s') \<Longrightarrow>
   has_ref r (highPriorityQueue s)"
  unfolding has_ref_def using grows_old_handler by blast

lemma run_cmd_callbacks_of [simp]:
  "callbacks_of r (trace (snd (run_cmd env c s))) = callbacks_of r (trace s)"
  using run_cmds_callbacks_of [of r env "[c]" s]
  by (cases "run_cmd env c s") (auto split: completion.splits)

lemma one_shot_inv_grows:
  assumes "one_shot_inv r s" and "grows s s'" and "wf s'"
  shows "one_shot_inv r s'"
  using assms grows_next_ref [OF assms(2)] grows_has_ref_queue [OF assms(2)]
    grows_old_listener [OF assms(2)]
  unfolding one_shot_inv_def by blast

lemma budget_grows:
  "grows s s' \<Longrightarrow> r < next_ref s \<Longrightarrow> budget r s' \<le> budget r s"
  using grows_has_ref_listeners [of s s' r] by (simp add: budget_def)

lemma listener_call_one_shot:
  assumes "fn_ref l = r" and "persist (fn_env l) \<noteq> Some True" and "r < next_ref s"
  shows "length (callbacks_of r (trace (snd (listener_call env e l s)))) +
           budget r (snd (listener_call env e l s))
         \<le> length (callbacks_of r (trace s)) + 1"
proof (cases "compute_rt env (fn_env l)")
  case (Throw err)
  then show ?thesis by (simp add: listener_call_throw budget_def)
next
  case (Return rt)
  show ?thesis
  proof (cases "\<not> num_less rt (Num (minimum_valid_rt (fn_env l))) \<and>
      isResponseValid s (valid_responses (fn_env l)) (allow_held_key (fn_env l))
        (toLowerCaseIfInsensitive s (e_key e))")
    case False
    then have "listener_call env e l s = (Return (), s)"
      using listener_call_early [OF Return] listener_call_invalid [OF Return] by blast
    then show ?thesis by (simp add: budget_def)
  next
    case True
    let ?c = "cancelKeyboardResponse (fn_ref l) (emit PreventDefault s)"
    let ?s' = "snd (invoke_callback env (fn_ref l) (callback_function (fn_env l)) (e_key e) rt ?c)"
    have eq: "snd (listener_call env e l s) = ?s'"
      using listener_call_matched [OF Return, of s e] True assms(2) by simp
    have gone: "\<not> has_ref r (listeners ?c)"
      using assms(1) by (simp add: cancelKeyboardResponse_listeners)
    have "r < next_ref ?c" using assms(3) by simp
    then have "\<not> has_ref r (listeners ?s')"
      using grows_has_ref_listeners [OF grows_invoke_callback] gone by blast
    then have "budget r ?s' = 0" by (simp add: budget_def)
    then show ?thesis
      unfolding eq using assms(1) by (simp add: invoke_callback_callbacks_of)
  qed
qed

lemma call_listeners_one_shot:
  assumes "distinct (map fn_ref ls)" and "r < next_ref s"
    and "\<forall>g \<in> set ls. fn_ref g = r \<longrightarrow> persist (fn_env g) \<noteq> Some True"
  shows "length (callbacks_of r (trace (snd (call_listeners env e ls s)))) +
           budget r (snd (call_listeners env e ls s))
         \<le> length (callbacks_of r (trace s)) +
           (if has_ref r (listeners s) \<or> has_ref r ls then 1 else 0)"
  using assms
proof (induction ls arbitrary: s)
  case Nil
  show ?case by (simp add: budget_def)
next
  case (Cons l ls)
  let ?s1 = "emit (ListenerInvoked (fn_ref l)) s"
  let ?s2 = "snd (listener_call env e l ?s1)"
  have g12: "grows ?s1 ?s2" by (rule grows_listener_call)
  have r1: "r < next_ref ?s1" using Cons.prems(2) by simp
  have r2: "r < next_ref ?s2" using grows_next_ref [OF g12 r1] .
  have ih: "length (callbacks_of r (trace (snd (call_listeners env e ls ?s2)))) +
           budget r (snd (call_listeners env e ls ?s2))
         \<le> length (callbacks_of r (trace ?s2)) +
           (if has_ref r (listeners ?s2) \<or> has_ref r ls then 1 else 0)"
    using Cons.IH [of ?s2] Cons.prems r2 by simp
  have here: "length (callbacks_of r (trace ?s2)) +
        (if has_ref r (listeners ?s2) \<or> has_ref r ls then 1 else 0)
      \<le> length (callbacks_of r (trace s)) +
        (if has_ref r (listeners s) \<or> has_ref r (l # ls) then 1 else 0)"
  proof (cases "fn_ref l = r")
    case True
    have nl: "\<not> has_ref r ls" using Cons.prems(1) True by (auto simp: has_ref_def)
    have "persist (fn_env l) \<noteq> Some True" using Cons.prems(3) True by simp
    then have "length (callbacks_of r (trace ?s2)) + budget r ?s2
        \<le> length (callbacks_of r (trace ?s1)) + 1"
      using listener_call_one_shot [OF True _ r1] by blast
    then show ?thesis using nl True by (simp add: budget_def)
  next
    case False
    have c: "callbacks_of r (trace ?s2) = callbacks_of r (trace s)"
      using listener_call_other [OF False, of env e ?s1] by simp
    have "has_ref r (listeners ?s2) \<longrightarrow> has_ref r (listeners s)"
      using grows_has_ref_listeners [OF g12 r1] by simp
    then show ?thesis using c False by auto
  qed
  have stop: "length (callbacks_of r (trace ?s2)) + budget r ?s2
      \<le> length (callbacks_of r (trace ?s2)) +
        (if has_ref r (listeners ?s2) \<or> has_ref r ls then 1 else 0)"
    by (simp add: budget_def)
  show ?case
    unfolding snd_call_listeners_Cons
    using ih here stop by (auto split: completion.splits)
qed

lemma rootKeydownListener_one_shot:
  assumes "one_shot_inv r s"
  shows "length (callbacks_of r (trace (snd (rootKeydownListener env e s)))) +
           budget r (snd (rootKeydownListener env e s))
         \<le> length (callbacks_of r (trace s)) + budget r s"
proof (cases "highPriorityQueue s")
  case Nil
  have w: "wf s" and rn: "r < next_ref s"
    and os: "\<forall>g \<in> set (listeners s). fn_ref g = r \<longrightarrow> persist (fn_env g) \<noteq> Some True"
    using assms unfolding one_shot_inv_def by blast+
  have "length (callbacks_of r (trace (snd (call_listeners env e (listeners s) s)))) +
           budget r (snd (call_listeners env e (listeners s) s))
         \<le> length (callbacks_of r (trace s)) + budget r s"
    using call_listeners_one_shot [OF wfD(1) [OF w] rn os, of env e]
    by (simp add: budget_def)
  then show ?thesis
    unfolding snd_rootKeydownListener_empty [OF Nil]
    by (auto simp: budget_def split: completion.splits)
next
  case (Cons h q)
  have rn: "r < next_ref s" and nq: "\<not> has_ref r (highPriorityQueue s)"
    using assms unfolding one_shot_inv_def by blast+
  have ne: "fn_ref h \<noteq> r" using nq Cons by simp
  let ?s1 = "emit (HandlerInvoked (fn_ref h)) s"
  let ?s2 = "snd (handler_call env e h ?s1)"
  have c: "callbacks_of r (trace ?s2) = callbacks_of r (trace s)"
    using handler_call_other [OF ne, of env e ?s1] by simp
  have "grows ?s1 ?s2" by (rule grows_handler_call)
  then have b: "has_ref r (listeners ?s2) \<longrightarrow> has_ref r (listeners s)"
    using grows_has_ref_listeners [of ?s1 ?s2 r] rn by simp
  show ?thesis
    unfolding snd_rootKeydownListener_head [OF Cons]
    using b c by (auto simp: budget_def split: completion.splits)
qed

lemma step_one_shot:
  assumes "one_shot_inv r s"
  shows "length (callbacks_of r (trace (step x s))) + budget r (step x s)
         \<le> length (callbacks_of r (trace s)) + budget r s"
proof (cases x)
  case (KeyDown env e)
  then show ?thesis using rootKeydownListener_one_shot [OF assms] by simp
next
  case (KeyUp e)
  then show ?thesis by (simp add: budget_def)
next
  case (ApiCall env c)
  have "r < next_ref s" using assms unfolding one_shot_inv_def by blast
  then show ?thesis using ApiCall budget_grows [OF grows_run_cmd, of r s env c] by simp
qed

lemma one_shot_inv_step: "one_shot_inv r s \<Longrightarrow> one_shot_inv r (step x s)"
  using one_shot_inv_grows [OF _ grows_step wf_step] unfolding one_shot_inv_def by blast

lemma run_one_shot:
  assumes "one_shot_inv r s"
  shows "length (callbacks_of r (trace (run ops s))) + budget r (run ops s)
         \<le> length (callbacks_of r (trace s)) + budget r s"
  using assms
proof (induction ops arbitrary: s)
  case Nil
  show ?case by simp
next
  case (Cons x xs)
  have "length (callbacks_of r (trace (run xs (step x s)))) + budget r (run xs (step x s))
      \<le> length (callbacks_of r (trace (step x s))) + budget r (step x s)"
    using Cons.IH [OF one_shot_inv_step [OF Cons.prems]] .
  then show ?case using step_one_shot [OF Cons.prems, of x] by simp
qed

lemma one_shot_inv_registered:
  assumes "wf s" and "l \<in> set (listeners s)" and "persist (fn_env l) \<noteq> Some True"
  shows "one_shot_inv (fn_ref l) s"
proof -
  note w = wfD [OF assms(1)]
  have hl: "has_ref (fn_ref l) (listeners s)" using assms(2) by (auto simp: has_ref_def)
  have "\<not> has_ref (fn_ref l) (highPriorityQueue s)"
  proof
    assume "has_ref (fn_ref l) (highPriorityQueue s)"
    then obtain f where "f \<in> set (highPriorityQueue s)" "fn_ref f = fn_ref l"
      by (auto simp: has_ref_def)
    then show False using w(5) [of f] hl by simp
  qed
  moreover have "persist (fn_env g) \<noteq> Some True"
    if "g \<in> set (listeners s)" "fn_ref g = fn_ref l" for g
    using same_ref_same_fn [OF w(1) assms(2) that] assms(3) by simp
  ultimately show ?thesis
    unfolding one_shot_inv_def using assms(1) w(3) [OF assms(2)] by blast
qed


text \<open>
  Claim C3. A normal listener registered without \<open>persist\<close> calls its callback at most
  once over any sequence of key events and API calls, and once it has called it the
  listener is no longer in the listener set. A valid key-down makes the listener cancel
  itself first and call the callback on the state without it, so the listener is absent
  when the callback starts and when it returns, whatever the callback registers.
\<close>

theorem C3_one_shot_listener:
  assumes "wf s" and "l \<in> set (listeners s)" and "persist (fn_env l) \<noteq> Some True"
  shows "length (callbacks_of (fn_ref l) (trace (run ops s)))
           \<le> length (callbacks_of (fn_ref l) (trace s)) + 1 \<and>
         (length (callbacks_of (fn_ref l) (trace s)) < length (callbacks_of (fn_ref l) (trace (run ops s)))
            \<longrightarrow> \<not> has_ref (fn_ref l) (listeners (run ops s))) \<and>
         (compute_rt env (fn_env l) = Return rt \<and>
          \<not> num_less rt (Num (minimum_valid_rt (fn_env l))) \<and>
          isResponseValid s' (valid_responses (fn_env l)) (allow_held_key (fn_env l))
            (toLowerCaseIfInsensitive s' (e_key e)) \<longrightarrow>
            listener_call env e l s' =
              invoke_callback env (fn_ref l) (callback_function (fn_env l)) (e_key e) rt
                (cancelKeyboardResponse (fn_ref l) (emit PreventDefault s')) \<and>
            \<not> has_ref (fn_ref l)
                (listeners (cancelKeyboardResponse (fn_ref l) (emit PreventDefault s'))) \<and>
            (fn_ref l < next_ref s' \<longrightarrow>
               \<not> has_ref (fn_ref l) (listeners (snd (listener_call env e l s')))))"
proof -
  let ?r = "fn_ref l"
  have inv: "one_shot_inv ?r s" by (rule one_shot_inv_registered [OF assms])
  have "length (callbacks_of ?r (trace (run ops s))) + budget ?r (run ops s)
         \<le> length (callbacks_of ?r (trace s)) + budget ?r s"
    by (rule run_one_shot [OF inv])
  moreover have "budget ?r s = 1" using assms(2) by (auto simp: budget_def has_ref_def)
  ultimately have pot: "length (callbacks_of ?r (trace (run ops s))) + budget ?r (run ops s)
         \<le> length (callbacks_of ?r (trace s)) + 1" by simp
  have a: "length (callbacks_of ?r (trace (run ops s))) \<le> length (callbacks_of ?r (trace s)) + 1"
    using pot by simp
  have b: "\<not> has_ref ?r (listeners (run ops s))"
    if "length (callbacks_of ?r (trace s)) < length (callbacks_of ?r (trace (run ops s)))"
    using pot that by (auto simp: budget_def split: if_splits)
  have c: "listener_call env e l s' =
              invoke_callback env ?r (callback_function (fn_env l)) (e_key e) rt
                (cancelKeyboardResponse ?r (emit PreventDefault s')) \<and>
            \<not> has_ref ?r (listeners (cancelKeyboardResponse ?r (emit PreventDefault s'))) \<and>
            (?r < next_ref s' \<longrightarrow> \<not> has_ref ?r (listeners (snd (listener_call env e l s'))))"
    if r: "compute_rt env (fn_env l) = Return rt"
      and m: "\<not> num_less rt (Num (minimum_valid_rt (fn_env l)))"
      and v: "isResponseValid s' (valid_responses (fn_env l)) (allow_held_key (fn_env l))
            (toLowerCaseIfInsensitive s' (e_key e))"
  proof -
    let ?c = "cancelKeyboardResponse ?r (emit PreventDefault s')"
    have eq: "listener_call env e l s' =
        invoke_callback env ?r (callback_function (fn_env l)) (e_key e) rt ?c"
      using listener_call_matched [OF r m v] assms(3) by simp
    have gone: "\<not> has_ref ?r (listeners ?c)"
      by (simp add: cancelKeyboardResponse_listeners)
    have "\<not> has_ref ?r (listeners (snd (listener_call env e l s')))" if "?r < next_ref s'"
    proof -
      have "?r < next_ref ?c" using that by simp
      then show ?thesis
        unfolding eq using grows_has_ref_listeners [OF grows_invoke_callback] gone by blast
    qed
    then show ?thesis using eq gone by blast
  qed
  show ?thesis using a b c by blast
qed

theorem C3_one_shot_listener_witness:
  "wf rearm_normal \<and>
   map fn_ref (listeners rearm_normal) = [0] \<and>
   persist (fn_env (hd (listeners rearm_normal))) \<noteq> Some True \<and>
   callbacks_of 0 (trace rearm_normal) = [] \<and>
   callbacks_of 0 (trace (run down_up_down rearm_normal)) = [CallbackInvoked 0 ''a'' (Num 250)] \<and>
   callbacks_of 1 (trace (run down_up_down rearm_normal)) = [CallbackInvoked 1 ''a'' (Num 150)] \<and>
   map fn_ref (listeners (run down_up_down rearm_normal)) = [] \<and>
   map fn_ref (listeners (run (take 1 down_up_down) rearm_normal)) = [1] \<and>
   \<not> has_ref 0 (listeners (run down_up_down rearm_normal))"
proof -
  have w: "wf rearm_normal"
    unfolding rearm_normal_def fresh_api_def by (intro wf_getKeyboardResponse wf_new)
  have a: "map fn_ref (listeners rearm_normal) = [0]" by code_simp
  have m: "hd (listeners rearm_normal) \<in> set (listeners rearm_normal)"
    using a by (cases "listeners rearm_normal") auto
  have r: "fn_ref (hd (listeners rearm_normal)) = 0"
    using a by (cases "listeners rearm_normal") auto
  have p: "persist (fn_env (hd (listeners rearm_normal))) \<noteq> Some True" by code_simp
  have b: "callbacks_of 0 (trace rearm_normal) = []" by code_simp
  have c: "callbacks_of 0 (trace (run down_up_down rearm_normal)) =
     [CallbackInvoked 0 ''a'' (Num 250)]" by code_simp
  have d: "callbacks_of 1 (trace (run down_up_down rearm_normal)) =
     [CallbackInvoked 1 ''a'' (Num 150)]" by code_simp
  have e: "map fn_ref (listeners (run down_up_down rearm_normal)) = []" by code_simp
  have f: "map fn_ref (listeners (run (take 1 down_up_down) rearm_normal)) = [1]" by code_simp
  have "\<not> has_ref 0 (listeners (run down_up_down rearm_normal))"
    using C3_one_shot_listener [OF w m p, of down_up_down] r b c by simp
  then show ?thesis using w a p b c d e f by blast
qed

section \<open>Held keys\<close>

lemma fst_call_listeners_Cons:
  "fst (call_listeners env e (l # ls) s) =
     (case fst (listener_call env e l (emit (ListenerInvoked (fn_ref l)) s)) of
        Throw err \<Rightarrow> Throw err
      | Return u \<Rightarrow>
          fst (call_listeners env e ls (snd (listener_call env e l (emit (ListenerInvoked (fn_ref l)) s)))))"
  by (cases "listener_call env e l (emit (ListenerInvoked (fn_ref l)) s)")
    (auto split: completion.splits)

lemma fst_rootKeydownListener_empty:
  "highPriorityQueue s = [] \<Longrightarrow>
   fst (rootKeydownListener env e s) = fst (call_listeners env e (listeners s) s)"
  by (cases "call_listeners env e (listeners s) s")
    (auto simp: rootKeydownListener_empty split: completion.splits)

lemma fst_rootKeydownListener_head:
  "highPriorityQueue s = h # q \<Longrightarrow>
   fst (rootKeydownListener env e s) =
     (case fst (handler_call env e h (emit (HandlerInvoked (fn_ref h)) s)) of
        Throw err \<Rightarrow> Throw err
      | Return handled \<Rightarrow> Return ())"
  by (cases "handler_call env e h (emit (HandlerInvoked (fn_ref h)) s)")
    (auto simp: rootKeydownListener_head split: completion.splits)

lemma isResponseValid_heldKeys_cong:
  "heldKeys s' = heldKeys s \<Longrightarrow> isResponseValid s' vr a k = isResponseValid s vr a k"
  by (simp add: isResponseValid_def)

lemma isResponseValid_first_press:
  "k \<notin> heldKeys s \<Longrightarrow> isResponseValid s' vr True k \<Longrightarrow> isResponseValid s vr a k"
  by (simp add: isResponseValid_def)

lemma listener_call_fires:
  assumes r: "compute_rt env (fn_env l) = Return rt"
    and m: "\<not> num_less rt (Num (minimum_valid_rt (fn_env l)))"
    and v: "isResponseValid s (valid_responses (fn_env l)) (allow_held_key (fn_env l))
              (toLowerCaseIfInsensitive s (e_key e))"
  shows "callbacks_of (fn_ref l) (trace (snd (listener_call env e l s))) =
           callbacks_of (fn_ref l) (trace s) @ [CallbackInvoked (fn_ref l) (e_key e) rt]"
  unfolding listener_call_matched [OF r m v] by (simp add: invoke_callback_callbacks_of)

lemma handler_call_fires:
  assumes r: "compute_rt env (fn_env h) = Return rt"
    and m: "\<not> num_less rt (Num (minimum_valid_rt (fn_env h)))"
    and v: "isResponseValid s (valid_responses (fn_env h)) (allow_held_key (fn_env h))
              (toLowerCaseIfInsensitive s (e_key e))"
  shows "callbacks_of (fn_ref h) (trace (snd (handler_call env e h s))) =
           callbacks_of (fn_ref h) (trace s) @ [CallbackInvoked (fn_ref h) (e_key e) rt]"
proof -
  have "snd (handler_call env e h s) =
       snd (invoke_callback env (fn_ref h) (callback_function (fn_env h)) (e_key e) rt
              (emit PreventDefault s))"
    unfolding handler_call_matched [OF r m v]
    by (auto split: prod.splits completion.splits)
  then show ?thesis by (simp add: invoke_callback_callbacks_of)
qed

lemma call_listeners_without_ref:
  assumes "\<not> has_ref r ls"
  shows "callbacks_of r (trace (snd (call_listeners env e ls s))) = callbacks_of r (trace s)"
  by (rule call_listeners_silent_ref) (use assms in \<open>auto simp: has_ref_def\<close>)

text \<open>A first press: the listener \<open>l\<close> is in the loop, the key is not held and is one
  the listener accepts, the reaction time is late enough, and the loop runs to its end.
  Then \<open>l\<close> calls its callback exactly once.\<close>

lemma call_listeners_fires_once:
  assumes "distinct (map fn_ref ls)" and "l \<in> set ls"
    and "toLowerCaseIfInsensitive s (e_key e) \<notin> heldKeys s"
    and "isResponseValid s (valid_responses (fn_env l)) True (toLowerCaseIfInsensitive s (e_key e))"
    and "compute_rt env (fn_env l) = Return rt"
    and "\<not> num_less rt (Num (minimum_valid_rt (fn_env l)))"
    and "fst (call_listeners env e ls s) = Return ()"
  shows "callbacks_of (fn_ref l) (trace (snd (call_listeners env e ls s))) =
           callbacks_of (fn_ref l) (trace s) @ [CallbackInvoked (fn_ref l) (e_key e) rt]"
  using assms(1,2,3,4,7)
proof (induction ls arbitrary: s)
  case Nil
  then show ?case by simp
next
  case (Cons g ls)
  let ?s1 = "emit (ListenerInvoked (fn_ref g)) s"
  let ?s2 = "snd (listener_call env e g ?s1)"
  have k1: "toLowerCaseIfInsensitive ?s1 (e_key e) = toLowerCaseIfInsensitive s (e_key e)"
    by (simp add: toLowerCaseIfInsensitive_def)
  have k2: "toLowerCaseIfInsensitive ?s2 (e_key e) = toLowerCaseIfInsensitive s (e_key e)"
    by (simp add: toLowerCaseIfInsensitive_def)
  have ok: "fst (listener_call env e g ?s1) = Return ()"
    and rest: "fst (call_listeners env e ls ?s2) = Return ()"
    using Cons.prems(5) unfolding fst_call_listeners_Cons
    by (auto split: completion.splits)
  show ?case
  proof (cases "g = l")
    case True
    have nl: "\<not> has_ref (fn_ref l) ls" using Cons.prems(1) True by (auto simp: has_ref_def)
    have v: "isResponseValid ?s1 (valid_responses (fn_env l)) (allow_held_key (fn_env l))
              (toLowerCaseIfInsensitive ?s1 (e_key e))"
      unfolding k1 using Cons.prems(3,4) by (simp add: isResponseValid_def)
    have "callbacks_of (fn_ref l) (trace ?s2) =
        callbacks_of (fn_ref l) (trace s) @ [CallbackInvoked (fn_ref l) (e_key e) rt]"
      using listener_call_fires [OF assms(5,6) v] True by simp
    then show ?thesis
      unfolding snd_call_listeners_Cons
      using ok call_listeners_without_ref [OF nl, of env e ?s2] True by simp
  next
    case False
    then have mem: "l \<in> set ls" using Cons.prems(2) by simp
    have ne: "fn_ref g \<noteq> fn_ref l"
      using Cons.prems(1) mem by (auto simp: image_iff)
    have c: "callbacks_of (fn_ref l) (trace ?s2) = callbacks_of (fn_ref l) (trace s)"
      using listener_call_other [OF ne, of env e ?s1] by simp
    have "callbacks_of (fn_ref l) (trace (snd (call_listeners env e ls ?s2))) =
        callbacks_of (fn_ref l) (trace ?s2) @ [CallbackInvoked (fn_ref l) (e_key e) rt]"
    proof (rule Cons.IH)
      show "distinct (map fn_ref ls)" using Cons.prems(1) by simp
      show "l \<in> set ls" by (rule mem)
      show "toLowerCaseIfInsensitive ?s2 (e_key e) \<notin> heldKeys ?s2"
        unfolding k2 using Cons.prems(3) by simp
      show "isResponseValid ?s2 (valid_responses (fn_env l)) True
              (toLowerCaseIfInsensitive ?s2 (e_key e))"
        unfolding k2 using Cons.prems(4) by (simp add: isResponseValid_def)
      show "fst (call_listeners env e ls ?s2) = Return ()" by (rule rest)
    qed
    then show ?thesis
      unfolding snd_call_listeners_Cons using ok c by simp
  qed
qed

text \<open>A repeat: the key is held, and every closure with reference \<open>r\<close> disallows held
  keys. Then the dispatch adds no callback of \<open>r\<close>.\<close>

lemma rootKeydownListener_held_silent:
  assumes ah: "\<forall>g \<in> set (listeners s) \<union> set (highPriorityQueue s).
             fn_ref g = r \<longrightarrow> \<not> allow_held_key (fn_env g)"
    and held: "toLowerCaseIfInsensitive s (e_key e) \<in> heldKeys s"
  shows "callbacks_of r (trace (snd (rootKeydownListener env e s))) = callbacks_of r (trace s)"
proof (cases "highPriorityQueue s")
  case Nil
  have "callbacks_of r (trace (snd (call_listeners env e (listeners s) s))) =
          callbacks_of r (trace s)"
  proof (rule call_listeners_silent_ref)
    fix g and s' :: KeyboardListenerAPI
    assume g: "g \<in> set (listeners s)" "fn_ref g = r" and h: "heldKeys s' = heldKeys s"
      and c: "areResponsesCaseSensitive s' = areResponsesCaseSensitive s"
    have "toLowerCaseIfInsensitive s' (e_key e) \<in> heldKeys s'"
      using held h toLowerCaseIfInsensitive_cong [OF c] by simp
    then show "snd (listener_call env e g s') = s'"
      using listener_call_held [of g s' e env] ah g by blast
  qed
  then show ?thesis
    unfolding snd_rootKeydownListener_empty [OF Nil] by (auto split: completion.splits)
next
  case (Cons h q)
  let ?s1 = "emit (HandlerInvoked (fn_ref h)) s"
  have "callbacks_of r (trace (snd (handler_call env e h ?s1))) = callbacks_of r (trace s)"
  proof (cases "fn_ref h = r")
    case True
    have "\<not> allow_held_key (fn_env h)" using ah Cons True by simp
    moreover have "toLowerCaseIfInsensitive ?s1 (e_key e) \<in> heldKeys ?s1"
      using held by (simp add: toLowerCaseIfInsensitive_def)
    ultimately have "snd (handler_call env e h ?s1) = ?s1"
      using handler_call_held [of h ?s1 e env] by blast
    then show ?thesis by simp
  next
    case False
    then show ?thesis using handler_call_other [OF False, of env e ?s1] by simp
  qed
  then show ?thesis
    unfolding snd_rootKeydownListener_head [OF Cons] by (auto split: completion.splits)
qed


lemma wf_unique_closure:
  assumes w: "wf s"
    and l: "l \<in> set (listeners s) \<or> l \<in> set (highPriorityQueue s)"
    and g: "g \<in> set (listeners s) \<union> set (highPriorityQueue s)" and r: "fn_ref g = fn_ref l"
  shows "g = l"
proof -
  note d = wfD [OF w]
  have x: False if "a \<in> set (listeners s)" "b \<in> set (highPriorityQueue s)" "fn_ref a = fn_ref b"
    for a b
    using d(5) [OF that(2)] that(1,3) unfolding has_ref_def by (metis imageI)
  from l g show ?thesis
  proof (elim disjE UnE)
    assume "l \<in> set (listeners s)" "g \<in> set (listeners s)"
    then show ?thesis using same_ref_same_fn [OF d(1) _ _ r] by blast
  next
    assume "l \<in> set (listeners s)" "g \<in> set (highPriorityQueue s)"
    then show ?thesis using x [of l g] r by simp
  next
    assume "l \<in> set (highPriorityQueue s)" "g \<in> set (listeners s)"
    then show ?thesis using x [of g l] r by simp
  next
    assume "l \<in> set (highPriorityQueue s)" "g \<in> set (highPriorityQueue s)"
    then show ?thesis using same_ref_same_fn [OF d(2) _ _ r] by blast
  qed
qed

text \<open>
  Claim C4, amended by the condition that the first dispatch completes. A listener that
  disallows held keys is dispatched a first key-down for a key that is not held, is one
  it accepts and comes late enough, and that dispatch returns without an exception; a
  second key-down for the same key follows with no key-up in between. Then the first
  press passes the held-key check and the listener calls its callback exactly once in the
  first dispatch; the key is in the held keys only after that dispatch, so the check
  rejects the repeat and the second dispatch adds no callback of the listener. (A
  dispatch that throws never reaches line 78: see the counterexample below.)
\<close>

theorem C4_held_key_suppression:
  assumes "wf s"
    and "(highPriorityQueue s = [] \<and> l \<in> set (listeners s)) \<or> (\<exists>q. highPriorityQueue s = l # q)"
    and "\<not> allow_held_key (fn_env l)"
    and "toLowerCaseIfInsensitive s (e_key e2) = toLowerCaseIfInsensitive s (e_key e1)"
    and "toLowerCaseIfInsensitive s (e_key e1) \<notin> heldKeys s"
    and "isResponseValid s (valid_responses (fn_env l)) True (toLowerCaseIfInsensitive s (e_key e1))"
    and "compute_rt env1 (fn_env l) = Return rt"
    and "\<not> num_less rt (Num (minimum_valid_rt (fn_env l)))"
    and "fst (rootKeydownListener env1 e1 s) = Return ()"
  shows "isResponseValid s (valid_responses (fn_env l)) False (toLowerCaseIfInsensitive s (e_key e1)) \<and>
         callbacks_of (fn_ref l) (trace (snd (rootKeydownListener env1 e1 s))) =
           callbacks_of (fn_ref l) (trace s) @ [CallbackInvoked (fn_ref l) (e_key e1) rt] \<and>
         toLowerCaseIfInsensitive s (e_key e1) \<in> heldKeys (snd (rootKeydownListener env1 e1 s)) \<and>
         \<not> isResponseValid (snd (rootKeydownListener env1 e1 s)) (valid_responses (fn_env l)) False
             (toLowerCaseIfInsensitive (snd (rootKeydownListener env1 e1 s)) (e_key e2)) \<and>
         callbacks_of (fn_ref l)
           (trace (snd (rootKeydownListener env2 e2 (snd (rootKeydownListener env1 e1 s))))) =
           callbacks_of (fn_ref l) (trace (snd (rootKeydownListener env1 e1 s)))"
proof -
  let ?r = "fn_ref l"
  let ?k = "toLowerCaseIfInsensitive s (e_key e1)"
  let ?s1 = "snd (rootKeydownListener env1 e1 s)"
  note d = wfD [OF assms(1)]
  have mem: "l \<in> set (listeners s) \<or> l \<in> set (highPriorityQueue s)"
    using assms(2) by auto
  have rn: "?r < next_ref s" using mem d(3) [of l] d(4) [of l] by blast
  have first: "isResponseValid s (valid_responses (fn_env l)) False ?k"
    using isResponseValid_first_press [OF assms(5,6)] .
  have once: "callbacks_of ?r (trace ?s1) =
      callbacks_of ?r (trace s) @ [CallbackInvoked ?r (e_key e1) rt]"
    using assms(2)
  proof (elim disjE conjE exE)
    assume q: "highPriorityQueue s = []" and m: "l \<in> set (listeners s)"
    have f: "fst (call_listeners env1 e1 (listeners s) s) = Return ()"
      using assms(9) fst_rootKeydownListener_empty [OF q] by simp
    have "callbacks_of ?r (trace (snd (call_listeners env1 e1 (listeners s) s))) =
        callbacks_of ?r (trace s) @ [CallbackInvoked ?r (e_key e1) rt]"
      by (rule call_listeners_fires_once [OF d(1) m assms(5,6,7,8) f])
    then show ?thesis
      unfolding snd_rootKeydownListener_empty [OF q] using f by simp
  next
    fix q assume q: "highPriorityQueue s = l # q"
    let ?s0 = "emit (HandlerInvoked ?r) s"
    have v: "isResponseValid ?s0 (valid_responses (fn_env l)) (allow_held_key (fn_env l))
              (toLowerCaseIfInsensitive ?s0 (e_key e1))"
      using first assms(3) by (simp add: isResponseValid_def toLowerCaseIfInsensitive_def)
    have "callbacks_of ?r (trace (snd (handler_call env1 e1 l ?s0))) =
        callbacks_of ?r (trace s) @ [CallbackInvoked ?r (e_key e1) rt]"
      using handler_call_fires [OF assms(7,8) v] by simp
    then show ?thesis
      unfolding snd_rootKeydownListener_head [OF q] by (auto split: completion.splits)
  qed
  have held: "?k \<in> heldKeys ?s1"
    using assms(9) by (simp add: rootKeydownListener_heldKeys)
  have k2: "toLowerCaseIfInsensitive ?s1 (e_key e2) = ?k"
    using assms(4) by (simp add: toLowerCaseIfInsensitive_def)
  have rej: "\<not> isResponseValid ?s1 (valid_responses (fn_env l)) False
             (toLowerCaseIfInsensitive ?s1 (e_key e2))"
    unfolding k2 using isResponseValid_held [OF held] .
  have g: "grows s ?s1" by (rule grows_rootKeydownListener)
  have all: "\<forall>g \<in> set (listeners ?s1) \<union> set (highPriorityQueue ?s1).
             fn_ref g = ?r \<longrightarrow> \<not> allow_held_key (fn_env g)"
  proof (intro ballI impI)
    fix f assume f: "f \<in> set (listeners ?s1) \<union> set (highPriorityQueue ?s1)" and r: "fn_ref f = ?r"
    have "f \<in> set (listeners s) \<union> set (highPriorityQueue s)"
      using f r rn grows_old_listener [OF g, of f] grows_old_handler [OF g, of f] by auto
    then have "f = l" using wf_unique_closure [OF assms(1) mem _ r] by blast
    then show "\<not> allow_held_key (fn_env f)" using assms(3) by simp
  qed
  have second: "callbacks_of ?r (trace (snd (rootKeydownListener env2 e2 ?s1))) =
      callbacks_of ?r (trace ?s1)"
    by (rule rootKeydownListener_held_silent [OF all]) (use held k2 in simp)
  show ?thesis using first once held rej second by blast
qed

theorem C4_held_key_suppression_witness:
  "wf persistent_normal \<and>
   highPriorityQueue persistent_normal = [] \<and>
   map fn_ref (listeners persistent_normal) = [0] \<and>
   \<not> allow_held_key (fn_env (hd (listeners persistent_normal))) \<and>
   toLowerCaseIfInsensitive persistent_normal ''a'' \<notin> heldKeys persistent_normal \<and>
   compute_rt (env_at 250) (fn_env (hd (listeners persistent_normal))) = Return (Num 250) \<and>
   fst (rootKeydownListener (env_at 250) (KeyboardEvent ''a'') persistent_normal) = Return () \<and>
   callbacks_of 0 (trace (snd (rootKeydownListener (env_at 250) (KeyboardEvent ''a'')
      persistent_normal))) = [CallbackInvoked 0 ''a'' (Num 250)] \<and>
   callbacks_of 0 (trace (snd (rootKeydownListener (env_at 280) (KeyboardEvent ''a'')
      (snd (rootKeydownListener (env_at 250) (KeyboardEvent ''a'') persistent_normal))))) =
     [CallbackInvoked 0 ''a'' (Num 250)] \<and>
   map fn_ref (listeners (snd (rootKeydownListener (env_at 280) (KeyboardEvent ''a'')
      (snd (rootKeydownListener (env_at 250) (KeyboardEvent ''a'') persistent_normal))))) = [0]"
proof -
  let ?l = "hd (listeners persistent_normal)"
  have w: "wf persistent_normal"
    unfolding persistent_normal_def fresh_api_def by (intro wf_getKeyboardResponse wf_new)
  have q: "highPriorityQueue persistent_normal = []"
    by (simp add: persistent_normal_def getKeyboardResponse_def Let_def persistent_options_def
        fresh_api_def new_KeyboardListenerAPI_def)
  have a: "map fn_ref (listeners persistent_normal) = [0]" by code_simp
  have m: "?l \<in> set (listeners persistent_normal)"
    using a by (cases "listeners persistent_normal") auto
  have r: "fn_ref ?l = 0"
    using a by (cases "listeners persistent_normal") auto
  have h: "\<not> allow_held_key (fn_env ?l)" by code_simp
  have k: "toLowerCaseIfInsensitive persistent_normal (e_key (KeyboardEvent ''a'')) \<notin>
     heldKeys persistent_normal" by code_simp
  have v: "isResponseValid persistent_normal (valid_responses (fn_env ?l)) True
     (toLowerCaseIfInsensitive persistent_normal (e_key (KeyboardEvent ''a'')))" by code_simp
  have c: "compute_rt (env_at 250) (fn_env ?l) = Return (Num 250)" by code_simp
  have n: "\<not> num_less (Num 250) (Num (minimum_valid_rt (fn_env ?l)))" by code_simp
  have f: "fst (rootKeydownListener (env_at 250) (KeyboardEvent ''a'') persistent_normal) = Return ()"
    by code_simp
  have t: "callbacks_of 0 (trace persistent_normal) = []" by code_simp
  have z: "map fn_ref (listeners (snd (rootKeydownListener (env_at 280) (KeyboardEvent ''a'')
      (snd (rootKeydownListener (env_at 250) (KeyboardEvent ''a'') persistent_normal))))) = [0]"
    by code_simp
  have d: "(highPriorityQueue persistent_normal = [] \<and> ?l \<in> set (listeners persistent_normal)) \<or>
     (\<exists>q. highPriorityQueue persistent_normal = ?l # q)"
    using q m by blast
  show ?thesis
    using C4_held_key_suppression [OF w d h refl k v c n f, of "env_at 280"]
      w q a h k c f t z r
    by simp
qed

text \<open>
  Claim C4 as stated, without the condition that the first dispatch completes, fails
  when the callback throws: the exception leaves \<open>rootKeydownListener\<close> before the key
  is added to the held keys, so the repeat passes the held-key check as well. The
  listener disallows held keys, the key is not held, is accepted and comes late enough,
  and still the listener calls its callback on both key-downs, as a normal listener and
  as the head of the queue.
\<close>

theorem C4_throwing_dispatch_counterexample:
  "map fn_ref (listeners throwing_normal) = [0] \<and>
   highPriorityQueue throwing_normal = [] \<and>
   \<not> allow_held_key (fn_env (hd (listeners throwing_normal))) \<and>
   toLowerCaseIfInsensitive throwing_normal ''a'' \<notin> heldKeys throwing_normal \<and>
   isResponseValid throwing_normal (valid_responses (fn_env (hd (listeners throwing_normal))))
     True (toLowerCaseIfInsensitive throwing_normal ''a'') \<and>
   compute_rt (env_at 250) (fn_env (hd (listeners throwing_normal))) = Return (Num 250) \<and>
   \<not> num_less (Num 250) (Num (minimum_valid_rt (fn_env (hd (listeners throwing_normal))))) \<and>
   fst (rootKeydownListener (env_at 250) (KeyboardEvent ''a'') throwing_normal) = Throw UserError \<and>
   heldKeys (snd (rootKeydownListener (env_at 250) (KeyboardEvent ''a'') throwing_normal)) = {} \<and>
   callbacks_of 0 (trace (run down_down throwing_normal)) =
     [CallbackInvoked 0 ''a'' (Num 250), CallbackInvoked 0 ''a'' (Num 280)] \<and>
   map fn_ref (highPriorityQueue throwing_high) = [0] \<and>
   \<not> allow_held_key (fn_env (hd (highPriorityQueue throwing_high))) \<and>
   heldKeys throwing_high = {} \<and>
   callbacks_of 0 (trace (run down_down throwing_high)) =
     [CallbackInvoked 0 ''a'' (Num 250), CallbackInvoked 0 ''a'' (Num 280)]"
proof -
  have q: "highPriorityQueue throwing_normal = []"
    by (simp add: throwing_normal_def getKeyboardResponse_def Let_def
        fresh_api_def new_KeyboardListenerAPI_def)
  have a: "map fn_ref (listeners throwing_normal) = [0] \<and>
   \<not> allow_held_key (fn_env (hd (listeners throwing_normal))) \<and>
   toLowerCaseIfInsensitive throwing_normal ''a'' \<notin> heldKeys throwing_normal \<and>
   isResponseValid throwing_normal (valid_responses (fn_env (hd (listeners throwing_normal))))
     True (toLowerCaseIfInsensitive throwing_normal ''a'') \<and>
   compute_rt (env_at 250) (fn_env (hd (listeners throwing_normal))) = Return (Num 250) \<and>
   \<not> num_less (Num 250) (Num (minimum_valid_rt (fn_env (hd (listeners throwing_normal))))) \<and>
   fst (rootKeydownListener (env_at 250) (KeyboardEvent ''a'') throwing_normal) = Throw UserError \<and>
   heldKeys (snd (rootKeydownListener (env_at 250) (KeyboardEvent ''a'') throwing_normal)) = {} \<and>
   callbacks_of 0 (trace (run down_down throwing_normal)) =
     [CallbackInvoked 0 ''a'' (Num 250), CallbackInvoked 0 ''a'' (Num 280)]"
    by code_simp
  have b: "map fn_ref (highPriorityQueue throwing_high) = [0] \<and>
   \<not> allow_held_key (fn_env (hd (highPriorityQueue throwing_high))) \<and>
   heldKeys throwing_high = {} \<and>
   callbacks_of 0 (trace (run down_down throwing_high)) =
     [CallbackInvoked 0 ''a'' (Num 250), CallbackInvoked 0 ''a'' (Num 280)]"
    by code_simp
  show ?thesis using q a b by blast
qed

section \<open>An early press at the head of the queue\<close>

lemma step_keeps_held:
  assumes "k \<in> heldKeys s'" and "areResponsesCaseSensitive s' = areResponsesCaseSensitive s"
    and "\<not> releases s k x"
  shows "k \<in> heldKeys (step x s') \<and>
         areResponsesCaseSensitive (step x s') = areResponsesCaseSensitive s"
proof (cases x)
  case (KeyDown env e)
  then show ?thesis using assms(1,2) by (simp add: rootKeydownListener_heldKeys)
next
  case (KeyUp e)
  have "toLowerCaseIfInsensitive s' (e_key e) = toLowerCaseIfInsensitive s (e_key e)"
    using assms(2) by (rule toLowerCaseIfInsensitive_cong)
  then show ?thesis using KeyUp assms by auto
next
  case (ApiCall env c)
  then show ?thesis using assms(1,2) by simp
qed

lemma run_keeps_held:
  assumes "k \<in> heldKeys s'" and "areResponsesCaseSensitive s' = areResponsesCaseSensitive s"
    and "\<forall>x \<in> set ops. \<not> releases s k x"
  shows "k \<in> heldKeys (run ops s') \<and>
         areResponsesCaseSensitive (run ops s') = areResponsesCaseSensitive s"
  using assms
proof (induction ops arbitrary: s')
  case Nil
  then show ?case by simp
next
  case (Cons x xs)
  have "k \<in> heldKeys (step x s') \<and>
         areResponsesCaseSensitive (step x s') = areResponsesCaseSensitive s"
    using step_keeps_held [OF Cons.prems(1,2)] Cons.prems(3) by simp
  then show ?case using Cons.IH [of "step x s'"] Cons.prems(3) by simp
qed

lemma rootKeydownListener_head_held:
  assumes q: "highPriorityQueue s = h # q" and a: "\<not> allow_held_key (fn_env h)"
    and k: "toLowerCaseIfInsensitive s (e_key e) \<in> heldKeys s"
  shows "highPriorityQueue (snd (rootKeydownListener env e s)) = h # q \<and>
         all_callbacks (trace (snd (rootKeydownListener env e s))) = all_callbacks (trace s)"
proof -
  let ?s0 = "emit (HandlerInvoked (fn_ref h)) s"
  have "toLowerCaseIfInsensitive ?s0 (e_key e) \<in> heldKeys ?s0"
    using k by (simp add: toLowerCaseIfInsensitive_def)
  then have "snd (handler_call env e h ?s0) = ?s0 \<and> fst (handler_call env e h ?s0) \<noteq> Return True"
    using handler_call_held [OF a] by blast
  then show ?thesis
    unfolding snd_rootKeydownListener_head [OF q]
    using q by (auto split: completion.splits)
qed

text \<open>
  Claim C10. The head of the queue disallows held keys and gets a key-down whose
  reaction time is below its minimum: the handler reports the event not consumed (queue
  and callbacks as before) and the dispatch still adds the key to the held keys. From
  then on, after any sequence of key events and API calls without a key-up for that key,
  the key is still held, so the handler rejects a key-down for it whatever the clock
  reads: it does not return true, changes nothing, and while it is the head the dispatch
  leaves it the head and calls no callback.
\<close>

theorem C10_early_press_locks_key:
  assumes "highPriorityQueue s = h # q"
    and "\<not> allow_held_key (fn_env h)"
    and "compute_rt env (fn_env h) = Return rt"
    and "num_less rt (Num (minimum_valid_rt (fn_env h)))"
  shows "rootKeydownListener env e s =
           (Return (), add_held e (emit (HandlerInvoked (fn_ref h)) s)) \<and>
         highPriorityQueue (snd (rootKeydownListener env e s)) = h # q \<and>
         all_callbacks (trace (snd (rootKeydownListener env e s))) = all_callbacks (trace s) \<and>
         toLowerCaseIfInsensitive s (e_key e) \<in> heldKeys (snd (rootKeydownListener env e s)) \<and>
         (\<forall>ops env' e'.
            (\<forall>x \<in> set ops. \<not> releases s (toLowerCaseIfInsensitive s (e_key e)) x) \<and>
            toLowerCaseIfInsensitive s (e_key e') = toLowerCaseIfInsensitive s (e_key e) \<longrightarrow>
            toLowerCaseIfInsensitive s (e_key e)
              \<in> heldKeys (run ops (snd (rootKeydownListener env e s))) \<and>
            fst (handler_call env' e' h (run ops (snd (rootKeydownListener env e s)))) \<noteq> Return True \<and>
            snd (handler_call env' e' h (run ops (snd (rootKeydownListener env e s)))) =
              run ops (snd (rootKeydownListener env e s)) \<and>
            (\<forall>q'. highPriorityQueue (run ops (snd (rootKeydownListener env e s))) = h # q' \<longrightarrow>
               highPriorityQueue
                 (snd (rootKeydownListener env' e' (run ops (snd (rootKeydownListener env e s)))))
                 = h # q' \<and>
               all_callbacks (trace
                 (snd (rootKeydownListener env' e' (run ops (snd (rootKeydownListener env e s))))))
                 = all_callbacks (trace (run ops (snd (rootKeydownListener env e s))))))"
proof -
  let ?k = "toLowerCaseIfInsensitive s (e_key e)"
  let ?s1 = "snd (rootKeydownListener env e s)"
  have eq: "rootKeydownListener env e s =
      (Return (), add_held e (emit (HandlerInvoked (fn_ref h)) s))"
    by (simp add: rootKeydownListener_head [OF assms(1)] handler_call_early [OF assms(3,4)])
  have a: "highPriorityQueue ?s1 = h # q" "all_callbacks (trace ?s1) = all_callbacks (trace s)"
    unfolding eq using assms(1) by simp_all
  have held: "?k \<in> heldKeys ?s1"
    unfolding eq by (simp add: toLowerCaseIfInsensitive_def)
  have cfg: "areResponsesCaseSensitive ?s1 = areResponsesCaseSensitive s" by simp
  have later: "?k \<in> heldKeys (run ops ?s1) \<and>
      fst (handler_call env' e' h (run ops ?s1)) \<noteq> Return True \<and>
      snd (handler_call env' e' h (run ops ?s1)) = run ops ?s1 \<and>
      (\<forall>q'. highPriorityQueue (run ops ?s1) = h # q' \<longrightarrow>
         highPriorityQueue (snd (rootKeydownListener env' e' (run ops ?s1))) = h # q' \<and>
         all_callbacks (trace (snd (rootKeydownListener env' e' (run ops ?s1))))
           = all_callbacks (trace (run ops ?s1)))"
    if nr: "\<forall>x \<in> set ops. \<not> releases s ?k x"
      and same: "toLowerCaseIfInsensitive s (e_key e') = ?k"
    for ops env' e'
  proof -
    let ?s' = "run ops ?s1"
    have h': "?k \<in> heldKeys ?s'" and c': "areResponsesCaseSensitive ?s' = areResponsesCaseSensitive s"
      using run_keeps_held [OF held cfg nr] by blast+
    have k': "toLowerCaseIfInsensitive ?s' (e_key e') \<in> heldKeys ?s'"
      using h' same toLowerCaseIfInsensitive_cong [OF c'] by simp
    show ?thesis
      using h' handler_call_held [OF assms(2) k']
        rootKeydownListener_head_held [OF _ assms(2) k']
      by blast
  qed
  show ?thesis using eq a held later by blast
qed

theorem C10_early_press_locks_key_witness:
  "map fn_ref (highPriorityQueue gated_high_only) = [0] \<and>
   \<not> allow_held_key (fn_env (hd (highPriorityQueue gated_high_only))) \<and>
   compute_rt (env_at 100) (fn_env (hd (highPriorityQueue gated_high_only))) = Return (Num 100) \<and>
   num_less (Num 100) (Num (minimum_valid_rt (fn_env (hd (highPriorityQueue gated_high_only))))) \<and>
   heldKeys (run [KeyDown (env_at 100) (KeyboardEvent ''a'')] gated_high_only) = {''a''} \<and>
   trace (run [KeyDown (env_at 100) (KeyboardEvent ''a''),
               KeyDown (env_at 300) (KeyboardEvent ''a'')] gated_high_only) =
     [HandlerInvoked 0, HandlerInvoked 0] \<and>
   map fn_ref (highPriorityQueue
     (run [KeyDown (env_at 100) (KeyboardEvent ''a''),
           KeyDown (env_at 300) (KeyboardEvent ''a'')] gated_high_only)) = [0] \<and>
   trace (run [KeyDown (env_at 100) (KeyboardEvent ''a''), KeyUp (KeyboardEvent ''a''),
               KeyDown (env_at 300) (KeyboardEvent ''a'')] gated_high_only) =
     [HandlerInvoked 0, HandlerInvoked 0, PreventDefault, CallbackInvoked 0 ''a'' (Num 300)] \<and>
   fst (handler_call (env_at 300) (KeyboardEvent ''a'') (hd (highPriorityQueue gated_high_only))
     (snd (rootKeydownListener (env_at 100) (KeyboardEvent ''a'') gated_high_only))) \<noteq> Return True"
proof -
  let ?h = "hd (highPriorityQueue gated_high_only)"
  have a: "map fn_ref (highPriorityQueue gated_high_only) = [0]" by code_simp
  have q: "highPriorityQueue gated_high_only = ?h # tl (highPriorityQueue gated_high_only)"
    using a by (cases "highPriorityQueue gated_high_only") auto
  have b: "\<not> allow_held_key (fn_env ?h)" by code_simp
  have c: "compute_rt (env_at 100) (fn_env ?h) = Return (Num 100)" by code_simp
  have d: "num_less (Num 100) (Num (minimum_valid_rt (fn_env ?h)))" by code_simp
  have e: "heldKeys (run [KeyDown (env_at 100) (KeyboardEvent ''a'')] gated_high_only) = {''a''}"
    by code_simp
  have f: "trace (run [KeyDown (env_at 100) (KeyboardEvent ''a''),
               KeyDown (env_at 300) (KeyboardEvent ''a'')] gated_high_only) =
     [HandlerInvoked 0, HandlerInvoked 0]" by code_simp
  have g: "map fn_ref (highPriorityQueue
     (run [KeyDown (env_at 100) (KeyboardEvent ''a''),
           KeyDown (env_at 300) (KeyboardEvent ''a'')] gated_high_only)) = [0]" by code_simp
  have h: "trace (run [KeyDown (env_at 100) (KeyboardEvent ''a''), KeyUp (KeyboardEvent ''a''),
               KeyDown (env_at 300) (KeyboardEvent ''a'')] gated_high_only) =
     [HandlerInvoked 0, HandlerInvoked 0, PreventDefault, CallbackInvoked 0 ''a'' (Num 300)]"
    by code_simp
  note T = C10_early_press_locks_key [OF q b c d, of "KeyboardEvent ''a''"]
  have "fst (handler_call (env_at 300) (KeyboardEvent ''a'') ?h
     (run [] (snd (rootKeydownListener (env_at 100) (KeyboardEvent ''a'') gated_high_only))))
     \<noteq> Return True"
    using T by (metis empty_iff list.set(1))
  then show ?thesis using a b c d e f g h by simp
qed

section \<open>The high-priority queue\<close>

lemma handler_call_not_consumed:
  "fst (handler_call env e h s) = Return False \<Longrightarrow> snd (handler_call env e h s) = s"
  by (auto simp: handler_call_def Let_def split: completion.splits prod.splits if_splits)

lemma handler_call_plain:
  assumes "callback_function (fn_env h) = Callback body" and "\<forall>k t. body k t = []"
  shows "highPriorityQueue (snd (handler_call env e h s)) = highPriorityQueue s \<and>
         listeners (snd (handler_call env e h s)) = listeners s \<and>
         highPriorityTokenToHandler (snd (handler_call env e h s)) = highPriorityTokenToHandler s \<and>
         highPriorityHandlerToToken (snd (handler_call env e h s)) = highPriorityHandlerToToken s"
  using assms
  by (auto simp: handler_call_def Let_def invoke_callback_def
      split: completion.splits prod.splits if_splits)

text \<open>
  The part of claim C2 that holds for every callback, and the part that holds when the
  callback leaves the head of the queue in place. With a non-empty queue a handler that
  reports "not consumed" has changed nothing, and the dispatch only notes the invocation
  and the held key. When it reports "consumed" and is still the first entry of the queue
  on return, the dispatch pops it, so the next entry is the new head, and its entry in
  the handler-to-token map is gone together with the token's entry in the other map. A
  callback that makes no API call leaves the queue as it was, so then the rest of the
  queue as it was before the event is what remains.
\<close>

theorem high_priority_head_fifo:
  assumes "highPriorityQueue s = h # q"
  shows "(fst (handler_call env e h (emit (HandlerInvoked (fn_ref h)) s)) = Return False \<longrightarrow>
            rootKeydownListener env e s =
              (Return (), add_held e (emit (HandlerInvoked (fn_ref h)) s))) \<and>
         (fst (handler_call env e h (emit (HandlerInvoked (fn_ref h)) s)) = Return True \<longrightarrow>
            fst (rootKeydownListener env e s) = Return () \<and>
            highPriorityHandlerToToken (snd (rootKeydownListener env e s)) (fn_ref h) = None \<and>
            (\<forall>t. highPriorityHandlerToToken
                   (snd (handler_call env e h (emit (HandlerInvoked (fn_ref h)) s))) (fn_ref h) = Some t
               \<longrightarrow> highPriorityTokenToHandler (snd (rootKeydownListener env e s)) t = None) \<and>
            (\<forall>q2. highPriorityQueue (snd (handler_call env e h (emit (HandlerInvoked (fn_ref h)) s)))
                    = h # q2 \<longrightarrow>
               highPriorityQueue (snd (rootKeydownListener env e s)) = q2) \<and>
            (\<forall>body. callback_function (fn_env h) = Callback body \<and> (\<forall>k t. body k t = []) \<longrightarrow>
               highPriorityQueue (snd (rootKeydownListener env e s)) = q \<and>
               listeners (snd (rootKeydownListener env e s)) = listeners s))"
proof -
  let ?s0 = "emit (HandlerInvoked (fn_ref h)) s"
  let ?s1 = "snd (handler_call env e h ?s0)"
  have a: "rootKeydownListener env e s = (Return (), add_held e ?s0)"
    if "fst (handler_call env e h ?s0) = Return False"
    using that handler_call_not_consumed [OF that]
    by (cases "handler_call env e h ?s0") (simp add: rootKeydownListener_head [OF assms])
  have b: "fst (rootKeydownListener env e s) = Return ()"
    and c: "snd (rootKeydownListener env e s) = add_held e (shift_handled h ?s1)"
    if "fst (handler_call env e h ?s0) = Return True"
    using that by (simp_all add: fst_rootKeydownListener_head [OF assms]
        snd_rootKeydownListener_head [OF assms])
  have d: "highPriorityHandlerToToken (add_held e (shift_handled h ?s1)) (fn_ref h) = None"
    by (simp add: shift_handled_def Let_def split: option.splits)
  have f: "highPriorityTokenToHandler (add_held e (shift_handled h ?s1)) t = None"
    if "highPriorityHandlerToToken ?s1 (fn_ref h) = Some t" for t
    using that by (simp add: shift_handled_def Let_def)
  have g: "highPriorityQueue (add_held e (shift_handled h ?s1)) = q2"
    if "highPriorityQueue ?s1 = h # q2" for q2
    using that by simp
  have p: "highPriorityQueue (add_held e (shift_handled h ?s1)) = q \<and>
           listeners (add_held e (shift_handled h ?s1)) = listeners s"
    if "callback_function (fn_env h) = Callback body" "\<forall>k t. body k t = []" for body
    using handler_call_plain [OF that, of env e ?s0] assms by simp
  have t: "fst (rootKeydownListener env e s) = Return () \<and>
            highPriorityHandlerToToken (snd (rootKeydownListener env e s)) (fn_ref h) = None \<and>
            (\<forall>t. highPriorityHandlerToToken ?s1 (fn_ref h) = Some t
               \<longrightarrow> highPriorityTokenToHandler (snd (rootKeydownListener env e s)) t = None) \<and>
            (\<forall>q2. highPriorityQueue ?s1 = h # q2 \<longrightarrow>
               highPriorityQueue (snd (rootKeydownListener env e s)) = q2) \<and>
            (\<forall>body. callback_function (fn_env h) = Callback body \<and> (\<forall>k t. body k t = []) \<longrightarrow>
               highPriorityQueue (snd (rootKeydownListener env e s)) = q \<and>
               listeners (snd (rootKeydownListener env e s)) = listeners s)"
    if ct: "fst (handler_call env e h ?s0) = Return True"
    unfolding c [OF ct] using b [OF ct] d f g p by blast
  show ?thesis using a t by blast
qed

theorem high_priority_head_fifo_witness:
  "map fn_ref (highPriorityQueue two_high_plain) = [0, 2] \<and>
   fst (handler_call (env_at 100) (KeyboardEvent ''x'') (hd (highPriorityQueue two_high_plain))
          (emit (HandlerInvoked (fn_ref (hd (highPriorityQueue two_high_plain)))) two_high_plain))
     = Return False \<and>
   fst (handler_call (env_at 250) (KeyboardEvent ''a'') (hd (highPriorityQueue two_high_plain))
          (emit (HandlerInvoked (fn_ref (hd (highPriorityQueue two_high_plain)))) two_high_plain))
     = Return True \<and>
   map fn_ref (highPriorityQueue
     (snd (rootKeydownListener (env_at 100) (KeyboardEvent ''x'') two_high_plain))) = [0, 2] \<and>
   trace (snd (rootKeydownListener (env_at 100) (KeyboardEvent ''x'') two_high_plain)) =
     [HandlerInvoked 0] \<and>
   highPriorityQueue (snd (rootKeydownListener (env_at 250) (KeyboardEvent ''a'') two_high_plain))
     = tl (highPriorityQueue two_high_plain) \<and>
   map fn_ref (highPriorityQueue
     (snd (rootKeydownListener (env_at 250) (KeyboardEvent ''a'') two_high_plain))) = [2] \<and>
   trace (run [KeyDown (env_at 100) (KeyboardEvent ''x''), KeyDown (env_at 250) (KeyboardEvent ''a''),
               KeyDown (env_at 400) (KeyboardEvent ''b'')] two_high_plain) =
     [HandlerInvoked 0,
      HandlerInvoked 0, PreventDefault, CallbackInvoked 0 ''a'' (Num 250),
      HandlerInvoked 2, PreventDefault, CallbackInvoked 2 ''b'' (Num 400)]"
proof -
  let ?h = "hd (highPriorityQueue two_high_plain)"
  have a: "map fn_ref (highPriorityQueue two_high_plain) = [0, 2]" by code_simp
  have q: "highPriorityQueue two_high_plain = ?h # tl (highPriorityQueue two_high_plain)"
    using a by (cases "highPriorityQueue two_high_plain") auto
  have b: "fst (handler_call (env_at 100) (KeyboardEvent ''x'') ?h
          (emit (HandlerInvoked (fn_ref ?h)) two_high_plain)) = Return False" by code_simp
  have c: "fst (handler_call (env_at 250) (KeyboardEvent ''a'') ?h
          (emit (HandlerInvoked (fn_ref ?h)) two_high_plain)) = Return True" by code_simp
  have d: "map fn_ref (highPriorityQueue
     (snd (rootKeydownListener (env_at 100) (KeyboardEvent ''x'') two_high_plain))) = [0, 2]"
    by code_simp
  have e: "trace (snd (rootKeydownListener (env_at 100) (KeyboardEvent ''x'') two_high_plain)) =
     [HandlerInvoked 0]" by code_simp
  have f: "map fn_ref (highPriorityQueue
     (snd (rootKeydownListener (env_at 250) (KeyboardEvent ''a'') two_high_plain))) = [2]"
    by code_simp
  have g: "trace (run [KeyDown (env_at 100) (KeyboardEvent ''x''), KeyDown (env_at 250) (KeyboardEvent ''a''),
               KeyDown (env_at 400) (KeyboardEvent ''b'')] two_high_plain) =
     [HandlerInvoked 0,
      HandlerInvoked 0, PreventDefault, CallbackInvoked 0 ''a'' (Num 250),
      HandlerInvoked 2, PreventDefault, CallbackInvoked 2 ''b'' (Num 400)]" by code_simp
  have cb: "callback_function (fn_env ?h) = Callback (\<lambda>k t. [])"
    by (simp add: two_high_plain_def getKeyboardResponse_def Let_def high_options_def
        high_letter_options_def silent_def fresh_api_def new_KeyboardListenerAPI_def)
  have "highPriorityQueue (snd (rootKeydownListener (env_at 250) (KeyboardEvent ''a'') two_high_plain))
     = tl (highPriorityQueue two_high_plain)"
    using high_priority_head_fifo [OF q, of "env_at 250" "KeyboardEvent ''a''"] c cb by blast
  then show ?thesis using a b c d e f g by blast
qed

text \<open>
  Claim C2 at a callback that cancels its own token. A and B are registered in that
  order. An event A rejects leaves the queue as it was and invokes only A. An event A
  accepts fires A's callback, which cancels A's token: A leaves the queue and both maps
  at once, and the \<open>shift()\<close> that follows the handler's return then drops B, the entry
  that has become the first. The queue is empty, B's token is still in both maps, and
  the next key-down invokes nothing: B never gets an event. With callbacks that do not
  call the API the same events make B the head and B takes the third event.
\<close>

theorem C2_shift_drops_next_listener:
  "map fn_ref (highPriorityQueue two_high_cancelling) = [0, 2] \<and>
   map fn_ref (highPriorityQueue
     (run [KeyDown (env_at 100) (KeyboardEvent ''x'')] two_high_cancelling)) = [0, 2] \<and>
   trace (run [KeyDown (env_at 100) (KeyboardEvent ''x'')] two_high_cancelling) = [HandlerInvoked 0] \<and>
   map fn_ref (highPriorityQueue
     (run [KeyDown (env_at 100) (KeyboardEvent ''x''),
           KeyDown (env_at 250) (KeyboardEvent ''a'')] two_high_cancelling)) = [] \<and>
   map_option fn_ref (highPriorityTokenToHandler
     (run [KeyDown (env_at 100) (KeyboardEvent ''x''),
           KeyDown (env_at 250) (KeyboardEvent ''a'')] two_high_cancelling) 3) = Some 2 \<and>
   highPriorityHandlerToToken
     (run [KeyDown (env_at 100) (KeyboardEvent ''x''),
           KeyDown (env_at 250) (KeyboardEvent ''a'')] two_high_cancelling) 2 = Some 3 \<and>
   trace (run [KeyDown (env_at 100) (KeyboardEvent ''x''), KeyDown (env_at 250) (KeyboardEvent ''a''),
               KeyDown (env_at 400) (KeyboardEvent ''b'')] two_high_cancelling) =
     [HandlerInvoked 0,
      HandlerInvoked 0, PreventDefault, CallbackInvoked 0 ''a'' (Num 250)] \<and>
   map fn_ref (highPriorityQueue
     (run [KeyDown (env_at 100) (KeyboardEvent ''x''),
           KeyDown (env_at 250) (KeyboardEvent ''a'')] two_high_plain)) = [2] \<and>
   trace (run [KeyDown (env_at 100) (KeyboardEvent ''x''), KeyDown (env_at 250) (KeyboardEvent ''a''),
               KeyDown (env_at 400) (KeyboardEvent ''b'')] two_high_plain) =
     [HandlerInvoked 0,
      HandlerInvoked 0, PreventDefault, CallbackInvoked 0 ''a'' (Num 250),
      HandlerInvoked 2, PreventDefault, CallbackInvoked 2 ''b'' (Num 400)]"
  by code_simp

text \<open>
  Every state the object reaches from its constructor, by key events and API calls
  (callbacks included), is well-formed: function identities stay unique.
\<close>

theorem reachable_states_wf:
  "wf (run ops (new_KeyboardListenerAPI env caseSensitive minRt))"
  by (intro wf_run wf_new)

theorem reachable_states_wf_witness:
  "wf (run down_up_down (new_KeyboardListenerAPI (env_at 0) None None)) \<and>
   wf (run (ApiCall (env_at 0) (CallGetKeyboardResponse (default_options rearm)) # down_up_down)
         (new_KeyboardListenerAPI (env_at 0) None None)) \<and>
   map fn_ref (listeners
      (run (ApiCall (env_at 0) (CallGetKeyboardResponse (default_options rearm)) # down_up_down)
         (new_KeyboardListenerAPI (env_at 0) None None))) = []"
proof -
  have "map fn_ref (listeners
      (run (ApiCall (env_at 0) (CallGetKeyboardResponse (default_options rearm)) # down_up_down)
         (new_KeyboardListenerAPI (env_at 0) None None))) = []" by code_simp
  then show ?thesis
    using reachable_states_wf [of down_up_down "env_at 0" None None]
      reachable_states_wf [of "ApiCall (env_at 0) (CallGetKeyboardResponse (default_options rearm)) # down_up_down" "env_at 0" None None]
    by blast
qed

end
